theory Spec2Isabelle
  imports Main
begin

section \<open>Numbers, typed arrays and geometry\<close>

text \<open>
  The renderable of \<^verbatim>\<open>mol-gl/renderable.ts\<close> culls the cells of an instance grid
  against a camera plane and a frustum and writes merged draw ranges into
  multi-draw argument buffers.

  Distances (\<^verbatim>\<open>number\<close> in the source, IEEE doubles at run time) are values of an
  arbitrary linearly ordered type \<open>'n\<close> with \<open>0\<close>, \<open>+\<close> and \<open>-\<close>: the code only adds,
  subtracts and compares them, and no law of arithmetic is assumed of them, so every
  result below holds for rounded arithmetic as well (not-a-number values apart).

  Instance indices and draw counts are integer-valued numbers, modelled as \<open>int\<close>.
  The batch buffers are typed arrays: a store into an \<^verbatim>\<open>Int32Array\<close> or a
  \<^verbatim>\<open>Uint32Array\<close> wraps the value into the element range, a store past the end is
  ignored (as \<open>xs[i := v]\<close> is), and the length never changes.
\<close>

definition toInt32 :: "int \<Rightarrow> int" where
  "toInt32 x = (x + 2147483648) mod 4294967296 - 2147483648"

definition toUint32 :: "int \<Rightarrow> int" where
  "toUint32 x = x mod 4294967296"

type_synonym 'n Vec3 = "'n \<times> 'n \<times> 'n"
type_synonym 'n Vec4 = "'n \<times> 'n \<times> 'n \<times> 'n"

record 'n Sphere3D =
  center :: "'n Vec3"
  radius :: 'n

text \<open>
  Modelled from the spec: \<^verbatim>\<open>Sphere3D.fromArray\<close> is imported, not defined in
  \<^verbatim>\<open>renderable.ts\<close>. The spec packs each cell sphere as four numbers, the centre's
  x, y, z and the radius; the source reads cell \<open>i\<close> at offset \<open>i * 4\<close>.
\<close>

definition s3fromArray :: "'n list \<Rightarrow> nat \<Rightarrow> 'n Sphere3D" where
  "s3fromArray array offset =
     \<lparr>center = (array ! offset, array ! (offset + 1), array ! (offset + 2)),
      radius = array ! (offset + 3)\<rparr>"

text \<open>
  \<^verbatim>\<open>Plane3D.distanceToPoint\<close> and \<^verbatim>\<open>Frustum3D.intersectsSphere3D\<close> are imported
  too; the culling code is parametric in them. \<open>'p\<close> is the type of planes and \<open>'f\<close>
  the type of frusta.
\<close>

record ('p, 'f, 'n) primitives =
  p3distanceToPoint :: "'p \<Rightarrow> 'n Vec3 \<Rightarrow> 'n"
  f3intersectsSphere3D :: "'f \<Rightarrow> 'n Sphere3D \<Rightarrow> bool"

section \<open>Multi-draw buffers\<close>

record 'n MultiDrawBaseData =
  firsts :: "int list"
  counts :: "int list"
  offsets :: "int list"
  instanceCounts :: "int list"
  baseVertices :: "int list"
  baseInstances :: "int list"
  count :: nat
  uniforms :: "(string \<times> 'n Vec4) list"

definition newMdbData :: "nat \<Rightarrow> 'n MultiDrawBaseData" where
  "newMdbData cellCount =
     \<lparr>firsts = replicate cellCount 0,
      counts = replicate cellCount 0,
      offsets = replicate cellCount 0,
      instanceCounts = replicate cellCount 0,
      baseVertices = replicate cellCount 0,
      baseInstances = replicate cellCount 0,
      count = 0,
      uniforms = []\<rparr>"

text \<open>
  \<^verbatim>\<open>getMdbData(cellCount, mdbData?)\<close>: the given object when it is there and long
  enough, a newly allocated one otherwise. The objects live in a store
  (a list, an address is an index into it, see the renderable's state below); the
  function returns the address and the store.
\<close>

definition getMdbData ::
  "nat \<Rightarrow> nat option \<Rightarrow> 'n MultiDrawBaseData list \<Rightarrow> nat \<times> 'n MultiDrawBaseData list" where
  "getMdbData cellCount mdbData h =
     (case mdbData of
        Some r \<Rightarrow>
          if length (instanceCounts (h ! r)) \<ge> cellCount then (r, h)
          else (length h, h @ [newMdbData cellCount])
      | None \<Rightarrow> (length h, h @ [newMdbData cellCount]))"

section \<open>The values a renderable reads\<close>

text \<open>
  A LOD level is the tuple \<^verbatim>\<open>[minDistance, maxDistance, overlap, count, sizeFactor]\<close>,
  read by position in the source (\<open>[0]\<close> to \<open>[4]\<close>).
\<close>

record 'n LodLevel =
  lvMinDistance :: 'n
  lvMaxDistance :: 'n
  lvOverlap :: 'n
  lvCount :: int
  lvSizeFactor :: 'n

record 'n LodLevelsRef =
  ref_value :: "'n LodLevel list"
  ref_version :: int

record 'n InstanceGrid =
  cellOffsets :: "int list"
  cellSpheres :: "'n list"
  cellCount :: nat

record 'n Values =
  drawCount :: int
  instanceCount :: int
  instanceGrid :: "'n InstanceGrid option"
  uLod :: "'n Vec4"
  lodLevels :: "'n LodLevelsRef option"

definition minDistance :: "'n Values \<Rightarrow> 'n" where
  "minDistance values = fst (uLod values)"

definition maxDistance :: "'n Values \<Rightarrow> 'n" where
  "maxDistance values = fst (snd (uLod values))"

definition hasLod :: "('n::zero) Values \<Rightarrow> bool" where
  "hasLod values \<longleftrightarrow> minDistance values \<noteq> 0 \<or> maxDistance values \<noteq> 0"

section \<open>The renderable's state\<close>

text \<open>
  The buffers are objects that the closure variables \<^verbatim>\<open>mdbData\<close> and
  \<^verbatim>\<open>mdbDataList\<close> refer to, and the same object can be reached through both. The
  model keeps the objects in a store (a list, an address is an index into it) and the
  variables hold addresses. \<open>uniformUpdates\<close> is not a variable of the source: it
  counts the calls of \<^verbatim>\<open>ValueCell.update\<close> on batch uniforms made so far.
\<close>

record 'n Renderable =
  store :: "'n MultiDrawBaseData list"
  mdbData :: nat
  mdbDataList :: "nat list"
  cullEnabled :: bool
  lodLevelsVersion :: int
  uniformUpdates :: nat

definition createRenderable :: "'n Renderable" where
  "createRenderable =
     \<lparr>store = [newMdbData 0], mdbData = 0, mdbDataList = [],
      cullEnabled = False, lodLevelsVersion = - 1, uniformUpdates = 0\<rparr>"

section \<open>Culling\<close>

subsection \<open>Without LOD levels\<close>

text \<open>
  The body of the loop over the cells when there are no LOD levels. \<open>md\<close> is the
  object \<^verbatim>\<open>mdbData\<close>, \<open>o'\<close> (the source's \<^verbatim>\<open>o\<close>) the number of entries
  written so far.
\<close>

definition cull_cell ::
  "('p, 'f, 'n::{zero,plus,minus,linorder}) primitives \<Rightarrow> 'n Values \<Rightarrow> 'n InstanceGrid \<Rightarrow>
   'p \<Rightarrow> 'f \<Rightarrow> nat \<Rightarrow> 'n MultiDrawBaseData \<times> nat \<Rightarrow> 'n MultiDrawBaseData \<times> nat" where
  "cull_cell G values g cameraPlane frustum i = (\<lambda>(md, o').
     let s = s3fromArray (cellSpheres g) (i * 4);
         d = p3distanceToPoint G cameraPlane (center s)
     in if hasLod values \<and> d + radius s < minDistance values then (md, o')
        else if hasLod values \<and> d - radius s > maxDistance values then (md, o')
        else if \<not> f3intersectsSphere3D G frustum s then (md, o')
        else
          let begin' = cellOffsets g ! i;
              end' = cellOffsets g ! (i + 1);
              count' = end' - begin'
          in if count' = 0 then (md, o')
             else if o' > 0 \<and> baseInstances md ! (o' - 1) + instanceCounts md ! (o' - 1) = begin'
             then (md\<lparr>instanceCounts := (instanceCounts md)
                        [o' - 1 := toInt32 (instanceCounts md ! (o' - 1) + count')]\<rparr>, o')
             else (md\<lparr>counts := (counts md)[o' := toInt32 (drawCount values)],
                      instanceCounts := (instanceCounts md)[o' := toInt32 count'],
                      baseInstances := (baseInstances md)[o' := toUint32 begin']\<rparr>, o' + 1))"

definition cull_single ::
  "('p, 'f, 'n::{zero,plus,minus,linorder}) primitives \<Rightarrow> 'n Values \<Rightarrow> 'n InstanceGrid \<Rightarrow>
   'p \<Rightarrow> 'f \<Rightarrow> 'n Renderable \<Rightarrow> 'n Renderable" where
  "cull_single G values g cameraPlane frustum st =
     (let (r, h) = getMdbData (cellCount g) (Some (mdbData st)) (store st);
          (md, o') = fold (cull_cell G values g cameraPlane frustum) [0..<cellCount g] (h ! r, 0)
      in st\<lparr>store := h[r := md\<lparr>count := o', uniforms := []\<rparr>],
            mdbData := r,
            mdbDataList := [r]\<rparr>)"

subsection \<open>With LOD levels\<close>

text \<open>
  \<^verbatim>\<open>mdbDataList.length = lodLevels.length\<close> followed by the loop that fills slot
  \<open>i\<close> from \<^verbatim>\<open>getMdbData(cellCount, mdbDataList[i])\<close> and resets its count: \<open>old\<close>
  is the list before, a slot past its end is undefined, \<open>l\<close> collects the new list.
\<close>

definition reset_batch ::
  "nat \<Rightarrow> nat list \<Rightarrow> nat \<Rightarrow> 'n MultiDrawBaseData list \<times> nat list \<Rightarrow>
   'n MultiDrawBaseData list \<times> nat list" where
  "reset_batch n old i = (\<lambda>(h, l).
     let (r, h') = getMdbData n (if i < length old then Some (old ! i) else None) h
     in (h'[r := (h' ! r)\<lparr>count := 0\<rparr>], l @ [r]))"

text \<open>
  The body of the loop that rebuilds the uniforms: a batch whose uniforms are not
  exactly one entry gets a new \<^verbatim>\<open>uLod\<close> cell, and the cell's vector is set from
  the level.
\<close>

definition update_uniform ::
  "('n::zero) LodLevel list \<Rightarrow> nat list \<Rightarrow> nat \<Rightarrow> 'n MultiDrawBaseData list \<Rightarrow>
   'n MultiDrawBaseData list" where
  "update_uniform lods l i h =
     (let r = l ! i;
          md = h ! r;
          us = (if length (uniforms md) \<noteq> 1 then [(''uLod'', (0, 0, 0, 0))] else uniforms md);
          lv = lods ! i
      in h[r := md\<lparr>uniforms :=
             [(fst (us ! 0), (lvMinDistance lv, lvMaxDistance lv, lvOverlap lv, lvSizeFactor lv))]\<rparr>])"

text \<open>The body of the inner loop over the levels, for a cell that got that far.\<close>

definition cull_level ::
  "('n::{plus,minus,linorder}) LodLevel list \<Rightarrow> nat list \<Rightarrow> 'n \<Rightarrow> 'n Sphere3D \<Rightarrow> int \<Rightarrow> int \<Rightarrow>
   nat \<Rightarrow> 'n MultiDrawBaseData list \<Rightarrow> 'n MultiDrawBaseData list" where
  "cull_level lods ml d s begin' count' j h =
     (if d + radius s < lvMinDistance (lods ! j) then h
      else if d - radius s > lvMaxDistance (lods ! j) then h
      else
        let r = ml ! j;
            l = h ! r;
            o' = count l
        in if o' > 0 \<and> baseInstances l ! (o' - 1) + instanceCounts l ! (o' - 1) = begin'
                \<and> counts l ! (o' - 1) = lvCount (lods ! j)
           then h[r := l\<lparr>instanceCounts := (instanceCounts l)
                       [o' - 1 := toInt32 (instanceCounts l ! (o' - 1) + count')]\<rparr>]
           else h[r := l\<lparr>counts := (counts l)[o' := toInt32 (lvCount (lods ! j))],
                         instanceCounts := (instanceCounts l)[o' := toInt32 count'],
                         baseInstances := (baseInstances l)[o' := toUint32 begin'],
                         count := o' + 1\<rparr>])"

definition cull_cell_lod ::
  "('p, 'f, 'n::{zero,plus,minus,linorder}) primitives \<Rightarrow> 'n Values \<Rightarrow> 'n InstanceGrid \<Rightarrow>
   'n LodLevel list \<Rightarrow> nat list \<Rightarrow> 'p \<Rightarrow> 'f \<Rightarrow> nat \<Rightarrow>
   'n MultiDrawBaseData list \<Rightarrow> 'n MultiDrawBaseData list" where
  "cull_cell_lod G values g lods ml cameraPlane frustum i h =
     (let s = s3fromArray (cellSpheres g) (i * 4);
          d = p3distanceToPoint G cameraPlane (center s)
      in if hasLod values \<and> d + radius s < minDistance values then h
         else if hasLod values \<and> d - radius s > maxDistance values then h
         else if \<not> f3intersectsSphere3D G frustum s then h
         else
           let begin' = cellOffsets g ! i;
               end' = cellOffsets g ! (i + 1);
               count' = end' - begin'
           in if count' = 0 then h
              else fold (cull_level lods ml d s begin' count') [0..<length lods] h)"

definition cull_lod ::
  "('p, 'f, 'n::{zero,plus,minus,linorder}) primitives \<Rightarrow> 'n Values \<Rightarrow> 'n InstanceGrid \<Rightarrow>
   'n LodLevelsRef \<Rightarrow> 'p \<Rightarrow> 'f \<Rightarrow> 'n Renderable \<Rightarrow> 'n Renderable" where
  "cull_lod G values g ref cameraPlane frustum st =
     (let lods = ref_value ref;
          (h1, ml) = fold (reset_batch (cellCount g) (mdbDataList st)) [0..<length lods]
                       (store st, []);
          rebuild = (ref_version ref \<noteq> lodLevelsVersion st);
          h2 = (if rebuild then fold (update_uniform lods ml) [0..<length lods] h1 else h1);
          h3 = fold (cull_cell_lod G values g lods ml cameraPlane frustum) [0..<cellCount g] h2
      in st\<lparr>store := h3,
            mdbDataList := ml,
            lodLevelsVersion := (if rebuild then ref_version ref else lodLevelsVersion st),
            uniformUpdates := (if rebuild then uniformUpdates st + length lods
                               else uniformUpdates st)\<rparr>)"

subsection \<open>The renderable's operations\<close>

definition cull ::
  "('p, 'f, 'n::{zero,plus,minus,linorder}) primitives \<Rightarrow> 'n Values \<Rightarrow> 'p \<Rightarrow> 'f \<Rightarrow>
   'n Renderable \<Rightarrow> 'n Renderable" where
  "cull G values cameraPlane frustum st =
     (let st0 = st\<lparr>cullEnabled := False\<rparr>
      in if drawCount values = 0 then st0
         else if instanceCount values = 0 then st0
         else case instanceGrid values of
                None \<Rightarrow> st0
              | Some g \<Rightarrow>
                  (case lodLevels values of
                     None \<Rightarrow> cull_single G values g cameraPlane frustum st0
                   | Some ref \<Rightarrow>
                       if length (ref_value ref) > 0
                       then cull_lod G values g ref cameraPlane frustum st0
                       else cull_single G values g cameraPlane frustum st0)
                  \<lparr>cullEnabled := True\<rparr>)"

definition uncull :: "'n Renderable \<Rightarrow> 'n Renderable" where
  "uncull st = st\<lparr>cullEnabled := False\<rparr>"

text \<open>
  \<^verbatim>\<open>render\<close> hands \<^verbatim>\<open>cullEnabled ? mdbDataList : undefined\<close> to the render item;
  this is that argument, the batches read from the store.
\<close>

definition render :: "'n Renderable \<Rightarrow> 'n MultiDrawBaseData list option" where
  "render st = (if cullEnabled st then Some (map (\<lambda>r. store st ! r) (mdbDataList st)) else None)"

type_synonym entry = "int \<times> int \<times> int"

definition entries :: "nat \<Rightarrow> 'n MultiDrawBaseData \<Rightarrow> entry list" where
  "entries k md = map (\<lambda>i. (baseInstances md ! i, instanceCounts md ! i, counts md ! i)) [0..<k]"

definition add_range :: "bool \<Rightarrow> int \<Rightarrow> int \<Rightarrow> int \<Rightarrow> entry list \<Rightarrow> entry list" where
  "add_range chk dc b c es =
     (if es \<noteq> [] \<and> fst (last es) + fst (snd (last es)) = b \<and> (chk \<longrightarrow> snd (snd (last es)) = dc)
      then butlast es @ [(fst (last es), toInt32 (fst (snd (last es)) + c), snd (snd (last es)))]
      else es @ [(toUint32 b, toInt32 c, toInt32 dc)])"

definition cell_sphere :: "'n InstanceGrid \<Rightarrow> nat \<Rightarrow> 'n Sphere3D" where
  "cell_sphere g i = s3fromArray (cellSpheres g) (i * 4)"

definition cell_distance :: "('p, 'f, 'n) primitives \<Rightarrow> 'n InstanceGrid \<Rightarrow> 'p \<Rightarrow> nat \<Rightarrow> 'n" where
  "cell_distance G g cameraPlane i = p3distanceToPoint G cameraPlane (center (cell_sphere g i))"

definition in_frustum :: "('p, 'f, 'n) primitives \<Rightarrow> 'n InstanceGrid \<Rightarrow> 'f \<Rightarrow> nat \<Rightarrow> bool" where
  "in_frustum G g frustum i \<longleftrightarrow> f3intersectsSphere3D G frustum (cell_sphere g i)"

definition within :: "'n::{plus,minus,linorder} \<Rightarrow> 'n \<Rightarrow> 'n \<Rightarrow> 'n \<Rightarrow> bool" where
  "within lo hi d r \<longleftrightarrow> lo \<le> d + r \<and> d - r \<le> hi"

definition in_overall_range ::
  "('p, 'f, 'n::{zero,plus,minus,linorder}) primitives \<Rightarrow> 'n Values \<Rightarrow> 'n InstanceGrid \<Rightarrow> 'p \<Rightarrow> nat \<Rightarrow> bool" where
  "in_overall_range G values g cameraPlane i \<longleftrightarrow>
     (hasLod values \<longrightarrow>
        within (minDistance values) (maxDistance values)
          (cell_distance G g cameraPlane i) (radius (cell_sphere g i)))"

definition in_level_range ::
  "('p, 'f, 'n::{plus,minus,linorder}) primitives \<Rightarrow> 'n InstanceGrid \<Rightarrow> 'n LodLevel list \<Rightarrow> 'p \<Rightarrow> nat \<Rightarrow> nat \<Rightarrow> bool" where
  "in_level_range G g lods cameraPlane j i \<longleftrightarrow>
     within (lvMinDistance (lods ! j)) (lvMaxDistance (lods ! j))
       (cell_distance G g cameraPlane i) (radius (cell_sphere g i))"

definition cell_begin :: "'n InstanceGrid \<Rightarrow> nat \<Rightarrow> int" where
  "cell_begin g i = cellOffsets g ! i"

definition cell_end :: "'n InstanceGrid \<Rightarrow> nat \<Rightarrow> int" where
  "cell_end g i = cellOffsets g ! (i + 1)"

definition put_single :: "int \<Rightarrow> int \<Rightarrow> int \<Rightarrow> 'n MultiDrawBaseData \<times> nat \<Rightarrow> 'n MultiDrawBaseData \<times> nat" where
  "put_single dc b c = (\<lambda>(md, k).
     if k > 0 \<and> baseInstances md ! (k - 1) + instanceCounts md ! (k - 1) = b
     then (md\<lparr>instanceCounts := (instanceCounts md)[k - 1 := toInt32 (instanceCounts md ! (k - 1) + c)]\<rparr>, k)
     else (md\<lparr>counts := (counts md)[k := toInt32 dc],
              instanceCounts := (instanceCounts md)[k := toInt32 c],
              baseInstances := (baseInstances md)[k := toUint32 b]\<rparr>, k + 1))"

definition put_level :: "int \<Rightarrow> int \<Rightarrow> int \<Rightarrow> 'n MultiDrawBaseData \<Rightarrow> 'n MultiDrawBaseData" where
  "put_level dc b c l =
     (let k = count l
      in if k > 0 \<and> baseInstances l ! (k - 1) + instanceCounts l ! (k - 1) = b \<and> counts l ! (k - 1) = dc
         then l\<lparr>instanceCounts := (instanceCounts l)[k - 1 := toInt32 (instanceCounts l ! (k - 1) + c)]\<rparr>
         else l\<lparr>counts := (counts l)[k := toInt32 dc],
                instanceCounts := (instanceCounts l)[k := toInt32 c],
                baseInstances := (baseInstances l)[k := toUint32 b],
                count := k + 1\<rparr>)"

definition same_capacity :: "'n MultiDrawBaseData \<Rightarrow> bool" where
  "same_capacity md \<longleftrightarrow> length (counts md) = length (instanceCounts md)
                      \<and> length (baseInstances md) = length (instanceCounts md)"

definition e_base :: "entry \<Rightarrow> int" where "e_base e = fst e"

definition e_size :: "entry \<Rightarrow> int" where "e_size e = fst (snd e)"

definition e_end :: "entry \<Rightarrow> int" where "e_end e = fst e + fst (snd e)"

definition run_entries :: "bool \<Rightarrow> int \<Rightarrow> (nat \<Rightarrow> bool) \<Rightarrow> int list \<Rightarrow> nat \<Rightarrow> entry list" where
  "run_entries chk dc sel offs n =
     fold (\<lambda>i es. if sel i \<and> offs ! (i + 1) - offs ! i \<noteq> 0
                   then add_range chk dc (offs ! i) (offs ! (i + 1) - offs ! i) es else es)
       [0..<n] []"

definition offsets_ok :: "int list \<Rightarrow> nat \<Rightarrow> bool" where
  "offsets_ok offs N \<longleftrightarrow> length offs = N + 1 \<and> sorted offs \<and> offs ! 0 = 0 \<and> offs ! N < 2147483648"

definition covered :: "entry list \<Rightarrow> int set" where
  "covered es = (\<Union>e\<in>set es. {e_base e..<e_end e})"

definition entries_ok :: "int \<Rightarrow> int \<Rightarrow> entry list \<Rightarrow> bool" where
  "entries_ok k bound es \<longleftrightarrow>
     (\<forall>e\<in>set es. 0 < e_size e \<and> 0 \<le> e_base e \<and> e_end e \<le> bound \<and> snd (snd e) = k)"

definition merging :: "bool \<Rightarrow> int \<Rightarrow> bool" where
  "merging chk dc \<longleftrightarrow> (chk \<longrightarrow> toInt32 dc = dc)"

definition cell_ranges :: "(nat \<Rightarrow> bool) \<Rightarrow> int list \<Rightarrow> nat \<Rightarrow> int set" where
  "cell_ranges sel offs n = (\<Union>i\<in>{i. i < n \<and> sel i}. {offs ! i..<offs ! (i + 1)})"

definition sel_single ::
  "('p, 'f, 'n::{zero,plus,minus,linorder}) primitives \<Rightarrow> 'n Values \<Rightarrow> 'n InstanceGrid \<Rightarrow> 'p \<Rightarrow> 'f \<Rightarrow> nat \<Rightarrow> bool" where
  "sel_single G values g cameraPlane frustum i \<longleftrightarrow>
     in_overall_range G values g cameraPlane i \<and> in_frustum G g frustum i"

definition sel_level ::
  "('p, 'f, 'n::{zero,plus,minus,linorder}) primitives \<Rightarrow> 'n Values \<Rightarrow> 'n InstanceGrid \<Rightarrow> 'n LodLevel list \<Rightarrow>
   'p \<Rightarrow> 'f \<Rightarrow> nat \<Rightarrow> nat \<Rightarrow> bool" where
  "sel_level G values g lods cameraPlane frustum j i \<longleftrightarrow>
     sel_single G values g cameraPlane frustum i \<and> in_level_range G g lods cameraPlane j i"

definition level_cell ::
  "('p, 'f, 'n::{zero,plus,minus,linorder}) primitives \<Rightarrow> 'n Values \<Rightarrow> 'n InstanceGrid \<Rightarrow> 'n LodLevel list \<Rightarrow>
   'p \<Rightarrow> 'f \<Rightarrow> nat \<Rightarrow> nat \<Rightarrow> 'n MultiDrawBaseData \<Rightarrow> 'n MultiDrawBaseData" where
  "level_cell G values g lods cameraPlane frustum j i l =
     (if sel_level G values g lods cameraPlane frustum j i \<and> cell_end g i - cell_begin g i \<noteq> 0
      then put_level (lvCount (lods ! j)) (cell_begin g i) (cell_end g i - cell_begin g i) l
      else l)"

text \<open>What a loop leaves alone: everything but the three arrays below the count.\<close>

definition same_rest :: "nat \<Rightarrow> 'n MultiDrawBaseData \<Rightarrow> 'n MultiDrawBaseData \<Rightarrow> bool" where
  "same_rest k md md' \<longleftrightarrow>
     firsts md' = firsts md \<and> offsets md' = offsets md \<and> baseVertices md' = baseVertices md
     \<and> uniforms md' = uniforms md
     \<and> length (counts md') = length (counts md)
     \<and> length (instanceCounts md') = length (instanceCounts md)
     \<and> length (baseInstances md') = length (baseInstances md)
     \<and> (\<forall>i\<ge>k. counts md' ! i = counts md ! i \<and> instanceCounts md' ! i = instanceCounts md ! i
               \<and> baseInstances md' ! i = baseInstances md ! i)"

definition capacity :: "'n MultiDrawBaseData \<Rightarrow> nat" where
  "capacity md = length (instanceCounts md)"

definition wf_state :: "'n Renderable \<Rightarrow> bool" where
  "wf_state st \<longleftrightarrow>
     mdbData st < length (store st)
     \<and> (\<forall>r\<in>set (mdbDataList st). r < length (store st))
     \<and> distinct (mdbDataList st)
     \<and> (\<forall>md\<in>set (store st). same_capacity md)"

definition reuses :: "nat \<Rightarrow> nat list \<Rightarrow> 'n MultiDrawBaseData list \<Rightarrow> nat \<Rightarrow> bool" where
  "reuses n old h0 j \<longleftrightarrow> j < length old \<and> n \<le> capacity (h0 ! (old ! j))"

definition reset_inv ::
  "nat \<Rightarrow> nat list \<Rightarrow> 'n MultiDrawBaseData list \<Rightarrow> nat \<Rightarrow> 'n MultiDrawBaseData list \<times> nat list \<Rightarrow> bool" where
  "reset_inv n old h0 m = (\<lambda>(h, l).
     length l = m \<and> length h0 \<le> length h \<and> distinct l \<and> (\<forall>r\<in>set l. r < length h)
     \<and> set l \<subseteq> set (take m old) \<union> {length h0..<length h}
     \<and> (\<forall>md\<in>set h. same_capacity md)
     \<and> (\<forall>r<length h0. r \<notin> set l \<longrightarrow> h ! r = h0 ! r)
     \<and> ((\<forall>j<m. reuses n old h0 j) \<longrightarrow> length h = length h0)
     \<and> (\<forall>r<length h. capacity (h ! r) = (if r < length h0 then capacity (h0 ! r) else n))
     \<and> (\<forall>j<m. if reuses n old h0 j then l ! j = old ! j \<and> h ! (l ! j) = (h0 ! (old ! j))\<lparr>count := 0\<rparr>
               else length h0 \<le> l ! j \<and> h ! (l ! j) = newMdbData n)
     \<and> length h = length h0 + length (filter (\<lambda>j. \<not> reuses n old h0 j) [0..<m]))"

definition set_uniform :: "('n::zero) LodLevel \<Rightarrow> 'n MultiDrawBaseData \<Rightarrow> 'n MultiDrawBaseData" where
  "set_uniform lv md =
     md\<lparr>uniforms :=
          [(fst ((if length (uniforms md) \<noteq> 1 then [(''uLod'', (0, 0, 0, 0))] else uniforms md) ! 0),
            (lvMinDistance lv, lvMaxDistance lv, lvOverlap lv, lvSizeFactor lv))]\<rparr>"

definition batches :: "'n Renderable \<Rightarrow> 'n MultiDrawBaseData list" where
  "batches st = map (\<lambda>r. store st ! r) (mdbDataList st)"

definition lod_levels :: "'n Values \<Rightarrow> 'n LodLevel list" where
  "lod_levels values = (case lodLevels values of None \<Rightarrow> [] | Some ref \<Rightarrow> ref_value ref)"

definition cull_ready :: "'n Values \<Rightarrow> 'n InstanceGrid \<Rightarrow> bool" where
  "cull_ready values g \<longleftrightarrow>
     drawCount values \<noteq> 0 \<and> instanceCount values \<noteq> 0 \<and> instanceGrid values = Some g"

definition lod_decomp ::
  "('p, 'f, 'n::{zero,plus,minus,linorder}) primitives \<Rightarrow> 'n Values \<Rightarrow> 'n InstanceGrid \<Rightarrow>
   'n LodLevelsRef \<Rightarrow> 'p \<Rightarrow> 'f \<Rightarrow> 'n Renderable \<Rightarrow> 'n MultiDrawBaseData list \<Rightarrow> nat list \<Rightarrow> bool" where
  "lod_decomp G values g ref cameraPlane frustum st h1 ml \<longleftrightarrow>
     reset_inv (cellCount g) (mdbDataList st) (store st) (length (ref_value ref)) (h1, ml)
     \<and> mdbDataList (cull_lod G values g ref cameraPlane frustum st) = ml
     \<and> length (store (cull_lod G values g ref cameraPlane frustum st)) = length h1
     \<and> (\<forall>j<length (ref_value ref).
           store (cull_lod G values g ref cameraPlane frustum st) ! (ml ! j) =
             fold (level_cell G values g (ref_value ref) cameraPlane frustum j) [0..<cellCount g]
               (if ref_version ref \<noteq> lodLevelsVersion st
                then set_uniform (ref_value ref ! j) (h1 ! (ml ! j)) else h1 ! (ml ! j)))
     \<and> (\<forall>r. r \<notin> set ml \<longrightarrow> store (cull_lod G values g ref cameraPlane frustum st) ! r = h1 ! r)"

definition selects ::
  "('p, 'f, 'n::{zero,plus,minus,linorder}) primitives \<Rightarrow> 'n Values \<Rightarrow> 'n InstanceGrid \<Rightarrow>
   'p \<Rightarrow> 'f \<Rightarrow> nat \<Rightarrow> nat \<Rightarrow> bool" where
  "selects G values g cameraPlane frustum j i \<longleftrightarrow>
     in_overall_range G values g cameraPlane i \<and> in_frustum G g frustum i
     \<and> (lod_levels values \<noteq> [] \<longrightarrow> in_level_range G g (lod_levels values) cameraPlane j i)"

definition batch_drawCount :: "'n Values \<Rightarrow> nat \<Rightarrow> int" where
  "batch_drawCount values j =
     (if lod_levels values = [] then drawCount values else lvCount (lod_levels values ! j))"

definition grid_partition :: "'n InstanceGrid \<Rightarrow> int \<Rightarrow> bool" where
  "grid_partition g n \<longleftrightarrow>
     length (cellOffsets g) = cellCount g + 1 \<and> sorted (cellOffsets g)
     \<and> cellOffsets g ! 0 = 0 \<and> cellOffsets g ! cellCount g = n"

definition entry_covers :: "'n MultiDrawBaseData \<Rightarrow> nat \<Rightarrow> int \<Rightarrow> bool" where
  "entry_covers b k x \<longleftrightarrow>
     baseInstances b ! k \<le> x \<and> x < baseInstances b ! k + instanceCounts b ! k"

definition entry_contains :: "'n MultiDrawBaseData \<Rightarrow> nat \<Rightarrow> int \<Rightarrow> int \<Rightarrow> bool" where
  "entry_contains b k lo hi \<longleftrightarrow>
     baseInstances b ! k \<le> lo \<and> hi \<le> baseInstances b ! k + instanceCounts b ! k"

section \<open>Equations for running the code\<close>

text \<open>
  The definitions above bind intermediate stores with \<open>let\<close>, as the source does with
  its local variables. For evaluation by rewriting it is much faster to hand each
  intermediate result to a function as an argument; the equations below put \<open>cull\<close>
  and its two paths into that form, and are the ones used to run the examples.
\<close>

definition cull_single_from ::
  "'n Renderable \<Rightarrow> nat \<Rightarrow> 'n MultiDrawBaseData list \<Rightarrow> 'n MultiDrawBaseData \<times> nat \<Rightarrow> 'n Renderable" where
  "cull_single_from st r h mdo =
     st\<lparr>store := h[r := (fst mdo)\<lparr>count := snd mdo, uniforms := []\<rparr>],
        mdbData := r, mdbDataList := [r]\<rparr>"

definition cull_single_at ::
  "('p, 'f, 'n::{zero,plus,minus,linorder}) primitives \<Rightarrow> 'n Values \<Rightarrow> 'n InstanceGrid \<Rightarrow>
   'p \<Rightarrow> 'f \<Rightarrow> 'n Renderable \<Rightarrow> nat \<times> 'n MultiDrawBaseData list \<Rightarrow> 'n Renderable" where
  "cull_single_at G values g cameraPlane frustum st rh =
     cull_single_from st (fst rh) (snd rh)
       (fold (cull_cell G values g cameraPlane frustum) [0..<cellCount g] (snd rh ! fst rh, 0))"

definition cull_lod_at ::
  "('p, 'f, 'n::{zero,plus,minus,linorder}) primitives \<Rightarrow> 'n Values \<Rightarrow> 'n InstanceGrid \<Rightarrow>
   'n LodLevelsRef \<Rightarrow> 'p \<Rightarrow> 'f \<Rightarrow> 'n Renderable \<Rightarrow> 'n MultiDrawBaseData list \<times> nat list \<Rightarrow>
   'n Renderable" where
  "cull_lod_at G values g ref cameraPlane frustum st hm =
     st\<lparr>store := fold (cull_cell_lod G values g (ref_value ref) (snd hm) cameraPlane frustum)
                   [0..<cellCount g]
                   (if ref_version ref \<noteq> lodLevelsVersion st
                    then fold (update_uniform (ref_value ref) (snd hm))
                           [0..<length (ref_value ref)] (fst hm)
                    else fst hm),
        mdbDataList := snd hm,
        lodLevelsVersion := (if ref_version ref \<noteq> lodLevelsVersion st then ref_version ref
                             else lodLevelsVersion st),
        uniformUpdates := (if ref_version ref \<noteq> lodLevelsVersion st
                           then uniformUpdates st + length (ref_value ref)
                           else uniformUpdates st)\<rparr>"

section \<open>Example inputs\<close>

text \<open>
  Concrete primitives over integer distances, used to run the code on examples: the
  distance of a point to the camera plane is its x coordinate, and a frustum is an
  interval \<open>(lo, hi)\<close> of x that a sphere meets when \<open>[x - r, x + r]\<close> does.
\<close>

definition ex_G :: "(unit, int \<times> int, int) primitives" where
  "ex_G = \<lparr>p3distanceToPoint = (\<lambda>_ c. fst c),
           f3intersectsSphere3D =
             (\<lambda>(lo, hi) s. lo \<le> fst (center s) + radius s \<and> fst (center s) - radius s \<le> hi)\<rparr>"

text \<open>
  Three cells at distances 0, 50 and 5, each of radius 1. In \<open>ex_grid\<close> the middle
  cell is empty, in \<open>ex_grid3\<close> every cell holds ten instances.
\<close>

definition ex_grid :: "int InstanceGrid" where
  "ex_grid = \<lparr>cellOffsets = [0, 10, 10, 25],
              cellSpheres = [0, 0, 0, 1, 50, 0, 0, 1, 5, 0, 0, 1],
              cellCount = 3\<rparr>"

definition ex_grid3 :: "int InstanceGrid" where
  "ex_grid3 = \<lparr>cellOffsets = [0, 10, 20, 30],
               cellSpheres = [0, 0, 0, 1, 50, 0, 0, 1, 5, 0, 0, 1],
               cellCount = 3\<rparr>"

text \<open>A grid of one cell at distance 50.\<close>

definition ex_grid1 :: "int InstanceGrid" where
  "ex_grid1 = \<lparr>cellOffsets = [0, 10], cellSpheres = [50, 0, 0, 1], cellCount = 1\<rparr>"

definition ex_values :: "int Values" where
  "ex_values = \<lparr>drawCount = 6, instanceCount = 25, instanceGrid = Some ex_grid,
                uLod = (0, 0, 0, 0), lodLevels = None\<rparr>"

definition ex_values3 :: "int Values" where
  "ex_values3 = \<lparr>drawCount = 6, instanceCount = 30, instanceGrid = Some ex_grid3,
                 uLod = (0, 0, 0, 0), lodLevels = None\<rparr>"

definition ex_values1 :: "int Values" where
  "ex_values1 = \<lparr>drawCount = 6, instanceCount = 10, instanceGrid = Some ex_grid1,
                 uLod = (0, 0, 0, 0), lodLevels = None\<rparr>"

text \<open>Two overlapping LOD levels, \<open>[0, 50]\<close> and \<open>[40, 100]\<close>, in a table of version 7.\<close>

definition ex_lods :: "int LodLevelsRef" where
  "ex_lods = \<lparr>ref_value =
                 [\<lparr>lvMinDistance = 0, lvMaxDistance = 50, lvOverlap = 0, lvCount = 3, lvSizeFactor = 1\<rparr>,
                  \<lparr>lvMinDistance = 40, lvMaxDistance = 100, lvOverlap = 0, lvCount = 2, lvSizeFactor = 2\<rparr>],
              ref_version = 7\<rparr>"

definition ex_values_lod :: "int Values" where
  "ex_values_lod = ex_values3\<lparr>lodLevels := Some ex_lods\<rparr>"


text \<open>
  An overall range and a single level that the sphere of the middle cell (distance 50,
  radius 1) touches from outside: \<open>50 + 1\<close> is the overall min distance and
  \<open>50 - 1\<close> the level's max distance.
\<close>

definition ex_values_touch :: "int Values" where
  "ex_values_touch =
     ex_values3\<lparr>uLod := (51, 100, 0, 0),
                lodLevels := Some \<lparr>ref_value =
                               [\<lparr>lvMinDistance = 0, lvMaxDistance = 49, lvOverlap = 0,
                                 lvCount = 3, lvSizeFactor = 1\<rparr>],
                             ref_version = 1\<rparr>\<rparr>"

text \<open>
  Two cells of two thousand million instances each, both at distance 50 with radius 1:
  each cell is below \<open>2^31\<close> instances, the grid as a whole is not.
\<close>

definition ex_grid_big :: "int InstanceGrid" where
  "ex_grid_big = \<lparr>cellOffsets = [0, 2000000000, 4000000000],
                  cellSpheres = [50, 0, 0, 1, 50, 0, 0, 1],
                  cellCount = 2\<rparr>"

definition ex_values_big :: "int Values" where
  "ex_values_big = \<lparr>drawCount = 6, instanceCount = 4000000000, instanceGrid = Some ex_grid_big,
                    uLod = (0, 0, 0, 0), lodLevels = None\<rparr>"


lemma cull_cell_eq:
  "cull_cell G values g cameraPlane frustum i (md, k) =
     (if in_overall_range G values g cameraPlane i \<and> in_frustum G g frustum i
         \<and> cell_end g i - cell_begin g i \<noteq> 0
      then put_single (drawCount values) (cell_begin g i) (cell_end g i - cell_begin g i) (md, k)
      else (md, k))"
  by (auto simp: cull_cell_def put_single_def in_overall_range_def in_frustum_def within_def
        cell_sphere_def cell_distance_def cell_begin_def cell_end_def Let_def not_less)

lemma entries_Suc:
  "entries (Suc k) md = entries k md @ [(baseInstances md ! k, instanceCounts md ! k, counts md ! k)]"
  by (simp add: entries_def)

lemma entries_cong:
  "(\<And>i. i < k \<Longrightarrow> baseInstances md ! i = baseInstances md' ! i \<and> instanceCounts md ! i = instanceCounts md' ! i \<and> counts md ! i = counts md' ! i)
   \<Longrightarrow> entries k md = entries k md'"
  by (simp add: entries_def)

lemma entries_nonempty: "k > 0 \<Longrightarrow> entries k md \<noteq> [] \<and> last (entries k md) = (baseInstances md ! (k - 1), instanceCounts md ! (k - 1), counts md ! (k - 1))"
  by (cases k) (simp_all add: entries_Suc)

lemma entries_0 [simp]: "entries 0 md = []"
  by (simp add: entries_def)

lemma butlast_entries: "butlast (entries k md) = entries (k - 1) md"
  by (cases k) (simp_all add: entries_Suc)

lemma put_single_entries:
  assumes "same_capacity md" and "k < length (instanceCounts md)"
  shows "entries (snd (put_single dc b c (md, k))) (fst (put_single dc b c (md, k)))
           = add_range False dc b c (entries k md)"
proof (cases "k > 0 \<and> baseInstances md ! (k - 1) + instanceCounts md ! (k - 1) = b")
  case True
  then obtain k' where k': "k = Suc k'" by (cases k) auto
  have "entries k (md\<lparr>instanceCounts := (instanceCounts md)[k - 1 := toInt32 (instanceCounts md ! (k - 1) + c)]\<rparr>)
      = entries k' md @ [(baseInstances md ! k', toInt32 (instanceCounts md ! k' + c), counts md ! k')]"
    using assms by (simp add: k' entries_def)
  with True show ?thesis
    using entries_nonempty[of k md]
    by (simp add: put_single_def add_range_def butlast_entries k')
next
  case False
  have "entries (Suc k) (md\<lparr>counts := (counts md)[k := toInt32 dc],
              instanceCounts := (instanceCounts md)[k := toInt32 c],
              baseInstances := (baseInstances md)[k := toUint32 b]\<rparr>)
      = entries k md @ [(toUint32 b, toInt32 c, toInt32 dc)]"
    using assms by (simp add: entries_def same_capacity_def)
  with False show ?thesis
    using entries_nonempty[of k md]
    by (cases "k = 0") (auto simp: put_single_def add_range_def)
qed

lemma put_single_props:
  "same_capacity md \<Longrightarrow> same_capacity (fst (put_single dc b c (md, k)))"
  "length (instanceCounts (fst (put_single dc b c (md, k)))) = length (instanceCounts md)"
  "k \<le> snd (put_single dc b c (md, k))" "snd (put_single dc b c (md, k)) \<le> Suc k"
  "count (fst (put_single dc b c (md, k))) = count md"
  "uniforms (fst (put_single dc b c (md, k))) = uniforms md"
  "firsts (fst (put_single dc b c (md, k))) = firsts md"
  "offsets (fst (put_single dc b c (md, k))) = offsets md"
  "baseVertices (fst (put_single dc b c (md, k))) = baseVertices md"
  by (auto simp: put_single_def same_capacity_def)

lemma put_level_entries:
  assumes "same_capacity l" and "count l < length (instanceCounts l)"
  shows "entries (count (put_level dc b c l)) (put_level dc b c l)
           = add_range True dc b c (entries (count l) l)"
proof (cases "count l > 0 \<and> baseInstances l ! (count l - 1) + instanceCounts l ! (count l - 1) = b \<and> counts l ! (count l - 1) = dc")
  case True
  then obtain k' where k': "count l = Suc k'" by (cases "count l") auto
  have "entries (count l) (l\<lparr>instanceCounts := (instanceCounts l)[count l - 1 := toInt32 (instanceCounts l ! (count l - 1) + c)]\<rparr>)
      = entries k' l @ [(baseInstances l ! k', toInt32 (instanceCounts l ! k' + c), counts l ! k')]"
    using assms by (simp add: k' entries_def)
  with True show ?thesis
    using entries_nonempty[of "count l" l]
    by (simp add: put_level_def add_range_def butlast_entries k' Let_def)
next
  case False
  have "entries (Suc (count l)) (l\<lparr>counts := (counts l)[count l := toInt32 dc],
              instanceCounts := (instanceCounts l)[count l := toInt32 c],
              baseInstances := (baseInstances l)[count l := toUint32 b], count := count l + 1\<rparr>)
      = entries (count l) l @ [(toUint32 b, toInt32 c, toInt32 dc)]"
    using assms by (simp add: entries_def same_capacity_def)
  with False show ?thesis
    using entries_nonempty[of "count l" l]
    by (cases "count l = 0") (auto simp: put_level_def add_range_def Let_def)
qed

lemma put_level_props:
  "same_capacity l \<Longrightarrow> same_capacity (put_level dc b c l)"
  "length (instanceCounts (put_level dc b c l)) = length (instanceCounts l)"
  "count l \<le> count (put_level dc b c l)" "count (put_level dc b c l) \<le> Suc (count l)"
  "uniforms (put_level dc b c l) = uniforms l"
  "firsts (put_level dc b c l) = firsts l"
  "offsets (put_level dc b c l) = offsets l"
  "baseVertices (put_level dc b c l) = baseVertices l"
  by (auto simp: put_level_def same_capacity_def Let_def)

lemma toInt32_id: "- 2147483648 \<le> x \<Longrightarrow> x < 2147483648 \<Longrightarrow> toInt32 x = x"
  by (simp add: toInt32_def)

lemma toUint32_id: "0 \<le> x \<Longrightarrow> x < 4294967296 \<Longrightarrow> toUint32 x = x"
  by (simp add: toUint32_def)

lemma offsets_ok_mono: "offsets_ok offs N \<Longrightarrow> i \<le> j \<Longrightarrow> j \<le> N \<Longrightarrow> offs ! i \<le> offs ! j"
  by (simp add: offsets_ok_def sorted_nth_mono)

lemma offsets_ok_nonneg: "offsets_ok offs N \<Longrightarrow> i \<le> N \<Longrightarrow> 0 \<le> offs ! i"
  using offsets_ok_mono[of offs N 0 i] by (simp add: offsets_ok_def)

lemma offsets_ok_bound: "offsets_ok offs N \<Longrightarrow> i \<le> N \<Longrightarrow> offs ! i < 2147483648"
  using offsets_ok_mono[of offs N i N] by (simp add: offsets_ok_def)

lemma run_entries_0 [simp]: "run_entries chk dc sel offs 0 = []"
  by (simp add: run_entries_def)

lemma run_entries_Suc:
  "run_entries chk dc sel offs (Suc n) =
     (if sel n \<and> offs ! (n + 1) - offs ! n \<noteq> 0
      then add_range chk dc (offs ! n) (offs ! (n + 1) - offs ! n) (run_entries chk dc sel offs n)
      else run_entries chk dc sel offs n)"
  by (simp add: run_entries_def)

text \<open>The merge step without wrap-around, on entries within bounds.\<close>

lemma add_range_merge:
  assumes "entries_ok (toInt32 dc) b es" "0 < c" "b + c < 2147483648"
      and "es \<noteq> []" "e_end (last es) = b" "chk \<longrightarrow> toInt32 dc = dc"
  shows "add_range chk dc b c es = butlast es @ [(e_base (last es), e_size (last es) + c, toInt32 dc)]"
proof -
  have l: "last es \<in> set es" using assms(4) by simp
  with assms(1) have p: "0 < e_size (last es)" "0 \<le> e_base (last es)" "snd (snd (last es)) = toInt32 dc"
    by (auto simp: entries_ok_def)
  have "e_size (last es) + c = b + c - e_base (last es)"
    using assms(5) by (simp add: e_end_def e_size_def e_base_def)
  with p assms(2,3) have "toInt32 (e_size (last es) + c) = e_size (last es) + c"
    by (intro toInt32_id) auto
  with p assms(5,6) assms(4) show ?thesis
    by (simp add: add_range_def e_end_def e_size_def e_base_def)
qed

lemma add_range_append:
  assumes "entries_ok (toInt32 dc) b es" "0 < c" "b + c < 2147483648" "0 \<le> b"
      and "es = [] \<or> e_end (last es) \<noteq> b \<or> (chk \<and> toInt32 dc \<noteq> dc)"
  shows "add_range chk dc b c es = es @ [(b, c, toInt32 dc)]"
proof -
  have "es \<noteq> [] \<Longrightarrow> snd (snd (last es)) = toInt32 dc"
    using assms(1) last_in_set[of es] by (auto simp: entries_ok_def)
  moreover have "toInt32 c = c" "toUint32 b = b"
    using assms(2,3,4) by (auto intro!: toInt32_id toUint32_id)
  ultimately show ?thesis
    using assms(5) by (auto simp: add_range_def e_end_def)
qed

lemma entries_ok_mono: "entries_ok k b es \<Longrightarrow> b \<le> b' \<Longrightarrow> entries_ok k b' es"
  by (fastforce simp: entries_ok_def)

lemma entries_ok_add_range:
  assumes "entries_ok (toInt32 dc) b es" "0 < c" "b + c < 2147483648" "0 \<le> b"
  shows "entries_ok (toInt32 dc) (b + c) (add_range chk dc b c es)"
proof (cases "es \<noteq> [] \<and> e_end (last es) = b \<and> (chk \<longrightarrow> toInt32 dc = dc)")
  case True
  then have eq: "add_range chk dc b c es = butlast es @ [(e_base (last es), e_size (last es) + c, toInt32 dc)]"
    using add_range_merge[OF assms(1-3)] by simp
  have l: "last es \<in> set es" using True by simp
  have old: "0 < e_size e \<and> 0 \<le> e_base e \<and> e_end e \<le> b \<and> snd (snd e) = toInt32 dc"
    if "e \<in> set es" for e
    using assms(1) that by (simp add: entries_ok_def)
  have "0 < e_size e \<and> 0 \<le> e_base e \<and> e_end e \<le> b + c \<and> snd (snd e) = toInt32 dc"
    if "e \<in> set (butlast es @ [(e_base (last es), e_size (last es) + c, toInt32 dc)])" for e
  proof (cases "e \<in> set (butlast es)")
    case True
    then show ?thesis using old[OF in_set_butlastD] assms(2) by fastforce
  next
    case False
    with that have "e = (e_base (last es), e_size (last es) + c, toInt32 dc)" by simp
    moreover have "e_base (last es) + e_size (last es) = b"
      using True by (simp add: e_end_def e_base_def e_size_def)
    ultimately show ?thesis
      using old[OF l] assms(2) by (simp add: e_base_def e_size_def e_end_def)
  qed
  then show ?thesis unfolding eq entries_ok_def by blast
next
  case False
  then have eq: "add_range chk dc b c es = es @ [(b, c, toInt32 dc)]"
    using add_range_append[OF assms(1-4)] by auto
  have "0 < e_size e \<and> 0 \<le> e_base e \<and> e_end e \<le> b + c \<and> snd (snd e) = toInt32 dc"
    if "e \<in> set (es @ [(b, c, toInt32 dc)])" for e
  proof (cases "e \<in> set es")
    case True
    then show ?thesis using assms(1,2) by (fastforce simp: entries_ok_def)
  next
    case False
    with that have "e = (b, c, toInt32 dc)" by simp
    then show ?thesis using assms(2,4) by (simp add: e_base_def e_size_def e_end_def)
  qed
  then show ?thesis unfolding eq entries_ok_def by blast
qed

lemma run_entries_ok:
  assumes "offsets_ok offs N" "n \<le> N"
  shows "entries_ok (toInt32 dc) (offs ! n) (run_entries chk dc sel offs n)"
  using assms(2)
proof (induction n)
  case 0
  then show ?case by (simp add: entries_ok_def)
next
  case (Suc n)
  then have IH: "entries_ok (toInt32 dc) (offs ! n) (run_entries chk dc sel offs n)" by simp
  have le: "offs ! n \<le> offs ! Suc n" using offsets_ok_mono[OF assms(1), of n "Suc n"] Suc.prems by simp
  show ?case
  proof (cases "sel n \<and> offs ! (n + 1) - offs ! n \<noteq> 0")
    case True
    with le have c: "0 < offs ! (n + 1) - offs ! n" by simp
    have b: "offs ! n + (offs ! (n + 1) - offs ! n) < 2147483648"
      using offsets_ok_bound[OF assms(1), of "Suc n"] Suc.prems by simp
    have "0 \<le> offs ! n" using offsets_ok_nonneg[OF assms(1), of n] Suc.prems by simp
    from entries_ok_add_range[OF IH c b this, of chk] True show ?thesis
      by (simp only: run_entries_Suc if_True) simp
  next
    case False
    then have "run_entries chk dc sel offs (Suc n) = run_entries chk dc sel offs n"
      by (simp only: run_entries_Suc if_False)
    with entries_ok_mono[OF IH le] show ?thesis by simp
  qed
qed

lemma run_entries_induct [consumes 2, case_names empty skip merge append]:
  assumes ok: "offsets_ok offs N" and n: "n \<le> N"
    and empty: "P 0 []"
    and skip: "\<And>m es. m < N \<Longrightarrow> P m es \<Longrightarrow> entries_ok (toInt32 dc) (offs ! m) es \<Longrightarrow>
                 \<not> (sel m \<and> offs ! m \<noteq> offs ! (m + 1)) \<Longrightarrow> P (Suc m) es"
    and merge: "\<And>m es. m < N \<Longrightarrow> P m es \<Longrightarrow> entries_ok (toInt32 dc) (offs ! m) es \<Longrightarrow>
                 sel m \<Longrightarrow> offs ! m < offs ! (m + 1) \<Longrightarrow> es \<noteq> [] \<Longrightarrow> e_end (last es) = offs ! m \<Longrightarrow>
                 merging chk dc \<Longrightarrow>
                 P (Suc m) (butlast es @ [(e_base (last es), e_size (last es) + (offs ! (m + 1) - offs ! m), toInt32 dc)])"
    and append: "\<And>m es. m < N \<Longrightarrow> P m es \<Longrightarrow> entries_ok (toInt32 dc) (offs ! m) es \<Longrightarrow>
                 sel m \<Longrightarrow> offs ! m < offs ! (m + 1) \<Longrightarrow>
                 es = [] \<or> e_end (last es) \<noteq> offs ! m \<or> \<not> merging chk dc \<Longrightarrow>
                 P (Suc m) (es @ [(offs ! m, offs ! (m + 1) - offs ! m, toInt32 dc)])"
  shows "P n (run_entries chk dc sel offs n)"
  using n
proof (induction n)
  case 0
  show ?case using empty by simp
next
  case (Suc m)
  let ?es = "run_entries chk dc sel offs m"
  have m: "m < N" and IH: "P m ?es" using Suc by simp_all
  have eok: "entries_ok (toInt32 dc) (offs ! m) ?es"
    using run_entries_ok[OF ok, of m] m by simp
  have le: "offs ! m \<le> offs ! (m + 1)" using offsets_ok_mono[OF ok, of m "Suc m"] m by simp
  show ?case
  proof (cases "sel m \<and> offs ! m \<noteq> offs ! (m + 1)")
    case False
    then have "run_entries chk dc sel offs (Suc m) = ?es"
      by (auto simp: run_entries_Suc)
    with skip[OF m IH eok False] show ?thesis by simp
  next
    case True
    with le have lt: "offs ! m < offs ! (m + 1)" and s: "sel m" by simp_all
    have c: "0 < offs ! (m + 1) - offs ! m" using lt by simp
    have b: "offs ! m + (offs ! (m + 1) - offs ! m) < 2147483648"
      using offsets_ok_bound[OF ok, of "Suc m"] m by simp
    have nn: "0 \<le> offs ! m" using offsets_ok_nonneg[OF ok, of m] m by simp
    have step: "run_entries chk dc sel offs (Suc m)
                  = add_range chk dc (offs ! m) (offs ! (m + 1) - offs ! m) ?es"
      using True by (auto simp: run_entries_Suc)
    show ?thesis
    proof (cases "?es \<noteq> [] \<and> e_end (last ?es) = offs ! m \<and> merging chk dc")
      case True
      then have "add_range chk dc (offs ! m) (offs ! (m + 1) - offs ! m) ?es
                 = butlast ?es @ [(e_base (last ?es), e_size (last ?es) + (offs ! (m + 1) - offs ! m), toInt32 dc)]"
        using add_range_merge[OF eok c b] by (simp add: merging_def)
      with merge[OF m IH eok s lt] True step show ?thesis by simp
    next
      case False
      then have "add_range chk dc (offs ! m) (offs ! (m + 1) - offs ! m) ?es
                 = ?es @ [(offs ! m, offs ! (m + 1) - offs ! m, toInt32 dc)]"
        using add_range_append[OF eok c b nn, of chk] by (auto simp: merging_def)
      with append[OF m IH eok s lt] False step show ?thesis by auto
    qed
  qed
qed


lemma sorted_wrt_snoc: "sorted_wrt R (xs @ [x]) \<longleftrightarrow> sorted_wrt R xs \<and> (\<forall>y\<in>set xs. R y x)"
  by (simp add: sorted_wrt_append)

lemma run_entries_sorted:
  assumes "offsets_ok offs N" "n \<le> N"
  shows "sorted_wrt (\<lambda>e1 e2. e_end e1 \<le> e_base e2) (run_entries chk dc sel offs n)"
  using assms
proof (induct rule: run_entries_induct[where dc = dc and chk = chk and sel = sel])
  case empty
  show ?case by simp
next
  case (skip m es)
  then show ?case by simp
next
  case (merge m es)
  from merge(2,6) have "sorted_wrt (\<lambda>e1 e2. e_end e1 \<le> e_base e2) (butlast es @ [last es])"
    by simp
  then show ?case
    unfolding sorted_wrt_snoc by (simp add: e_base_def)
next
  case (append m es)
  from append(3) have "\<forall>y\<in>set es. e_end y \<le> offs ! m" by (simp add: entries_ok_def)
  with append(2) show ?case
    unfolding sorted_wrt_snoc by (simp add: e_base_def)
qed


lemma covered_snoc: "covered (es @ [e]) = covered es \<union> {e_base e..<e_end e}"
  by (auto simp: covered_def)

lemma cell_ranges_Suc:
  "cell_ranges sel offs (Suc m) =
     cell_ranges sel offs m \<union> (if sel m then {offs ! m..<offs ! (m + 1)} else {})"
  by (auto simp: cell_ranges_def less_Suc_eq)

lemma run_entries_covered:
  assumes "offsets_ok offs N" "n \<le> N"
  shows "covered (run_entries chk dc sel offs n) = cell_ranges sel offs n"
  using assms
proof (induct rule: run_entries_induct[where dc = dc and chk = chk and sel = sel])
  case empty
  show ?case by (simp add: covered_def cell_ranges_def)
next
  case (skip m es)
  have le: "offs ! m \<le> offs ! (m + 1)" using offsets_ok_mono[OF assms(1), of m "Suc m"] skip(1) by simp
  with skip show ?case by (auto simp: cell_ranges_Suc)
next
  case (merge m es)
  have "covered es = covered (butlast es @ [last es])" using merge(6) by simp
  also have "\<dots> = covered (butlast es) \<union> {e_base (last es)..<e_end (last es)}"
    by (rule covered_snoc)
  finally have es: "covered es = covered (butlast es) \<union> {e_base (last es)..<e_end (last es)}" .
  from merge(3,6) have "0 < e_size (last es)" by (simp add: entries_ok_def)
  then have "e_base (last es) \<le> offs ! m"
    using merge(7) by (simp add: e_end_def e_base_def e_size_def)
  with merge(5,7) have
    "{e_base (last es)..<offs ! (m + 1)} = {e_base (last es)..<e_end (last es)} \<union> {offs ! m..<offs ! (m + 1)}"
    by auto
  moreover have "e_end (e_base (last es), e_size (last es) + (offs ! (m + 1) - offs ! m), toInt32 dc) = offs ! (m + 1)"
    using merge(7) by (simp add: e_end_def e_base_def e_size_def)
  ultimately have "covered (butlast es @ [(e_base (last es), e_size (last es) + (offs ! (m + 1) - offs ! m), toInt32 dc)])
                   = covered (butlast es) \<union> ({e_base (last es)..<e_end (last es)} \<union> {offs ! m..<offs ! (m + 1)})"
    by (simp add: covered_snoc e_base_def)
  also have "\<dots> = covered es \<union> {offs ! m..<offs ! (m + 1)}"
    unfolding es by (simp add: Un_assoc)
  finally show ?case
    using merge(2,4) by (simp add: cell_ranges_Suc)
next
  case (append m es)
  then show ?case
    by (simp add: covered_snoc cell_ranges_Suc e_base_def e_end_def)
qed

lemma run_entries_contains:
  assumes "offsets_ok offs N" "n \<le> N"
  shows "\<forall>i<n. sel i \<and> offs ! i < offs ! (i + 1) \<longrightarrow>
           (\<exists>e\<in>set (run_entries chk dc sel offs n). e_base e \<le> offs ! i \<and> offs ! (i + 1) \<le> e_end e)"
  using assms
proof (induct rule: run_entries_induct[where dc = dc and chk = chk and sel = sel])
  case empty
  show ?case by simp
next
  case (skip m es)
  then show ?case by (auto simp: less_Suc_eq)
next
  case (merge m es)
  let ?e = "(e_base (last es), e_size (last es) + (offs ! (m + 1) - offs ! m), toInt32 dc)"
  have new: "e_base ?e = e_base (last es)" "e_end ?e = offs ! (m + 1)" "e_end (last es) \<le> e_end ?e"
    using merge(5,7) by (simp_all add: e_end_def e_base_def e_size_def)
  from merge(3,6) have "0 < e_size (last es)" by (simp add: entries_ok_def)
  then have bl: "e_base (last es) \<le> offs ! m"
    using merge(7) by (simp add: e_end_def e_base_def e_size_def)
  have grow: "\<exists>e'\<in>set (butlast es @ [?e]). e_base e' = e_base e \<and> e_end e \<le> e_end e'" if "e \<in> set es" for e
  proof (cases "e \<in> set (butlast es)")
    case True
    then show ?thesis by auto
  next
    case False
    with that merge(6) have "e = last es"
      by (metis Un_iff append_butlast_last_id empty_iff empty_set set_ConsD set_append)
    with new show ?thesis by auto
  qed
  show ?case
  proof (intro allI impI)
    fix i assume i: "i < Suc m" and s: "sel i \<and> offs ! i < offs ! (i + 1)"
    show "\<exists>e\<in>set (butlast es @ [?e]). e_base e \<le> offs ! i \<and> offs ! (i + 1) \<le> e_end e"
    proof (cases "i = m")
      case True
      with new bl show ?thesis by auto
    next
      case False
      with i have "i < m" by simp
      with merge(2) s obtain e where "e \<in> set es" "e_base e \<le> offs ! i" "offs ! (i + 1) \<le> e_end e"
        by blast
      with grow[of e] show ?thesis by fastforce
    qed
  qed
next
  case (append m es)
  show ?case
  proof (intro allI impI)
    fix i assume i: "i < Suc m" and s: "sel i \<and> offs ! i < offs ! (i + 1)"
    show "\<exists>e\<in>set (es @ [(offs ! m, offs ! (m + 1) - offs ! m, toInt32 dc)]). e_base e \<le> offs ! i \<and> offs ! (i + 1) \<le> e_end e"
    proof (cases "i = m")
      case True
      then show ?thesis by (simp add: e_base_def e_end_def)
    next
      case False
      with i have "i < m" by simp
      with append(2) s show ?thesis by auto
    qed
  qed
qed

lemma same_rest_refl: "same_rest k md md"
  by (simp add: same_rest_def)

lemma same_rest_put_single:
  assumes "same_rest k md0 md" "put_single dc b c (md, k) = (md', k')"
  shows "same_rest k' md0 md'"
  using assms by (auto simp: same_rest_def put_single_def split: if_splits)

lemma same_rest_put_level:
  assumes "same_rest (count l) md0 l"
  shows "same_rest (count (put_level dc b c l)) md0 (put_level dc b c l)"
  using assms by (auto simp: same_rest_def put_level_def Let_def split: if_splits)

lemma cull_cell_eq':
  "cull_cell G values g cameraPlane frustum i (md, k) =
     (if sel_single G values g cameraPlane frustum i \<and> cell_end g i - cell_begin g i \<noteq> 0
      then put_single (drawCount values) (cell_begin g i) (cell_end g i - cell_begin g i) (md, k)
      else (md, k))"
  by (simp add: cull_cell_eq sel_single_def)

lemma fold_cull_cell:
  assumes "same_capacity md" "n \<le> length (instanceCounts md)"
  shows "case fold (cull_cell G vals g cameraPlane frustum) [0..<n] (md, 0) of (md', k) \<Rightarrow>
           entries k md' = run_entries False (drawCount vals)
                             (sel_single G vals g cameraPlane frustum) (cellOffsets g) n
           \<and> k \<le> n \<and> same_capacity md' \<and> same_rest k md md' \<and> count md' = count md"
  using assms(2)
proof (induction n)
  case 0
  show ?case using assms(1) by (simp add: same_rest_refl)
next
  case (Suc n)
  obtain md1 k1 where f: "fold (cull_cell G vals g cameraPlane frustum) [0..<n] (md, 0) = (md1, k1)"
    by (cases "fold (cull_cell G vals g cameraPlane frustum) [0..<n] (md, 0)")
  with Suc have IH: "entries k1 md1 = run_entries False (drawCount vals)
                             (sel_single G vals g cameraPlane frustum) (cellOffsets g) n"
      "k1 \<le> n" "same_capacity md1" "same_rest k1 md md1" "count md1 = count md"
    by simp_all
  have len: "length (instanceCounts md1) = length (instanceCounts md)"
    using IH(4) by (simp add: same_rest_def)
  have step: "fold (cull_cell G vals g cameraPlane frustum) [0..<Suc n] (md, 0)
              = cull_cell G vals g cameraPlane frustum n (md1, k1)"
    by (simp add: f)
  show ?case
  proof (cases "sel_single G vals g cameraPlane frustum n \<and> cell_end g n - cell_begin g n \<noteq> 0")
    case False
    then have "cull_cell G vals g cameraPlane frustum n (md1, k1) = (md1, k1)"
      by (auto simp: cull_cell_eq')
    with False IH show ?thesis
      unfolding step by (auto simp: run_entries_Suc cell_end_def cell_begin_def)
  next
    case True
    let ?p = "put_single (drawCount vals) (cell_begin g n) (cell_end g n - cell_begin g n) (md1, k1)"
    have c: "cull_cell G vals g cameraPlane frustum n (md1, k1) = ?p"
      using True by (simp add: cull_cell_eq')
    have k1: "k1 < length (instanceCounts md1)" using IH(2) Suc.prems len by simp
    obtain md2 k2 where p: "?p = (md2, k2)" by (cases ?p)
    have e: "entries k2 md2 = add_range False (drawCount vals) (cell_begin g n)
                 (cell_end g n - cell_begin g n) (entries k1 md1)"
      using put_single_entries[OF IH(3) k1, of "drawCount vals" "cell_begin g n" "cell_end g n - cell_begin g n"] p
      by simp
    have props: "same_capacity md2" "k2 \<le> Suc k1" "count md2 = count md1"
      using put_single_props(1)[OF IH(3), of "drawCount vals" "cell_begin g n" "cell_end g n - cell_begin g n" k1]
            put_single_props(4,5)[of "drawCount vals" "cell_begin g n" "cell_end g n - cell_begin g n" md1 k1] p
      by simp_all
    have sr: "same_rest k2 md md2" using same_rest_put_single[OF IH(4) p] .
    show ?thesis
      unfolding step c p using True e IH(1,2,5) props sr
      by (simp add: run_entries_Suc cell_end_def cell_begin_def)
  qed
qed

lemma fold_level_cell:
  assumes "same_capacity l" "n \<le> length (instanceCounts l)" "count l = 0"
  shows "entries (count (fold (level_cell G vals g lods cameraPlane frustum j) [0..<n] l))
                 (fold (level_cell G vals g lods cameraPlane frustum j) [0..<n] l)
           = run_entries True (lvCount (lods ! j))
               (sel_level G vals g lods cameraPlane frustum j) (cellOffsets g) n
         \<and> count (fold (level_cell G vals g lods cameraPlane frustum j) [0..<n] l) \<le> n
         \<and> same_capacity (fold (level_cell G vals g lods cameraPlane frustum j) [0..<n] l)
         \<and> same_rest (count (fold (level_cell G vals g lods cameraPlane frustum j) [0..<n] l)) l
              (fold (level_cell G vals g lods cameraPlane frustum j) [0..<n] l)"
  using assms(2)
proof (induction n)
  case 0
  show ?case using assms(1,3) by (simp add: same_rest_refl)
next
  case (Suc n)
  let ?l1 = "fold (level_cell G vals g lods cameraPlane frustum j) [0..<n] l"
  from Suc have IH: "entries (count ?l1) ?l1 = run_entries True (lvCount (lods ! j))
               (sel_level G vals g lods cameraPlane frustum j) (cellOffsets g) n"
      "count ?l1 \<le> n" "same_capacity ?l1" "same_rest (count ?l1) l ?l1"
    by simp_all
  have len: "length (instanceCounts ?l1) = length (instanceCounts l)"
    using IH(4) by (simp add: same_rest_def)
  have step: "fold (level_cell G vals g lods cameraPlane frustum j) [0..<Suc n] l
              = level_cell G vals g lods cameraPlane frustum j n ?l1"
    by simp
  show ?case
  proof (cases "sel_level G vals g lods cameraPlane frustum j n \<and> cell_end g n - cell_begin g n \<noteq> 0")
    case False
    then have "level_cell G vals g lods cameraPlane frustum j n ?l1 = ?l1"
      by (auto simp: level_cell_def)
    with False IH show ?thesis
      unfolding step by (auto simp: run_entries_Suc cell_end_def cell_begin_def)
  next
    case True
    let ?p = "put_level (lvCount (lods ! j)) (cell_begin g n) (cell_end g n - cell_begin g n) ?l1"
    have c: "level_cell G vals g lods cameraPlane frustum j n ?l1 = ?p"
      using True by (simp add: level_cell_def)
    have k1: "count ?l1 < length (instanceCounts ?l1)" using IH(2) Suc.prems len by simp
    have e: "entries (count ?p) ?p = add_range True (lvCount (lods ! j)) (cell_begin g n)
                 (cell_end g n - cell_begin g n) (entries (count ?l1) ?l1)"
      using put_level_entries[OF IH(3) k1] .
    have props: "same_capacity ?p" "count ?p \<le> Suc (count ?l1)"
      using put_level_props(1)[OF IH(3)] put_level_props(4) by blast+
    have sr: "same_rest (count ?p) l ?p" using same_rest_put_level[OF IH(4)] .
    show ?thesis
      unfolding step c using True e IH(1,2) props sr
      by (simp add: run_entries_Suc cell_end_def cell_begin_def)
  qed
qed

lemma cull_level_eq:
  "cull_level lods ml d s b c j h =
     (if within (lvMinDistance (lods ! j)) (lvMaxDistance (lods ! j)) d (radius s)
      then h[ml ! j := put_level (lvCount (lods ! j)) b c (h ! (ml ! j))]
      else h)"
  by (auto simp: cull_level_def put_level_def within_def Let_def not_less)

lemma fold_cull_level:
  assumes "distinct ml" "m \<le> length ml" "\<forall>r\<in>set ml. r < length h"
  shows "length (fold (cull_level lods ml d s b c) [0..<m] h) = length h
       \<and> (\<forall>j<length ml. fold (cull_level lods ml d s b c) [0..<m] h ! (ml ! j) =
            (if j < m \<and> within (lvMinDistance (lods ! j)) (lvMaxDistance (lods ! j)) d (radius s)
             then put_level (lvCount (lods ! j)) b c (h ! (ml ! j)) else h ! (ml ! j)))
       \<and> (\<forall>r. r \<notin> set ml \<longrightarrow> fold (cull_level lods ml d s b c) [0..<m] h ! r = h ! r)"
  using assms(2)
proof (induction m)
  case 0
  show ?case by simp
next
  case (Suc m)
  let ?h = "fold (cull_level lods ml d s b c) [0..<m] h"
  from Suc have IH: "length ?h = length h"
     "\<And>j. j < length ml \<Longrightarrow> ?h ! (ml ! j) =
            (if j < m \<and> within (lvMinDistance (lods ! j)) (lvMaxDistance (lods ! j)) d (radius s)
             then put_level (lvCount (lods ! j)) b c (h ! (ml ! j)) else h ! (ml ! j))"
     "\<And>r. r \<notin> set ml \<Longrightarrow> ?h ! r = h ! r"
    by simp_all
  have m: "m < length ml" using Suc.prems by simp
  have step: "fold (cull_level lods ml d s b c) [0..<Suc m] h = cull_level lods ml d s b c m ?h"
    by simp
  have hm: "?h ! (ml ! m) = h ! (ml ! m)" using IH(2)[OF m] by simp
  have rm: "ml ! m < length ?h" using m assms(3) IH(1) by simp
  show ?case
  proof (cases "within (lvMinDistance (lods ! m)) (lvMaxDistance (lods ! m)) d (radius s)")
    case False
    then have "cull_level lods ml d s b c m ?h = ?h" by (simp add: cull_level_eq)
    with False IH show ?thesis unfolding step by (auto simp: less_Suc_eq)
  next
    case True
    then have c: "cull_level lods ml d s b c m ?h
                  = ?h[ml ! m := put_level (lvCount (lods ! m)) b c (h ! (ml ! m))]"
      by (simp add: cull_level_eq hm)
    have "?h[ml ! m := x] ! (ml ! j) = (if j = m then x else ?h ! (ml ! j))" if "j < length ml" for j x
      using that m rm assms(1) by (auto simp: nth_eq_iff_index_eq)
    moreover have "?h[ml ! m := x] ! r = ?h ! r" if "r \<notin> set ml" for r x
      using that m by (metis nth_list_update_neq nth_mem)
    ultimately show ?thesis
      unfolding step c using IH True by (auto simp: less_Suc_eq)
  qed
qed

lemma cull_cell_lod_nth:
  assumes "distinct ml" "length ml = length lods" "\<forall>r\<in>set ml. r < length h"
  shows "length (cull_cell_lod G values g lods ml cameraPlane frustum i h) = length h
       \<and> (\<forall>j<length ml. cull_cell_lod G values g lods ml cameraPlane frustum i h ! (ml ! j)
             = level_cell G values g lods cameraPlane frustum j i (h ! (ml ! j)))
       \<and> (\<forall>r. r \<notin> set ml \<longrightarrow> cull_cell_lod G values g lods ml cameraPlane frustum i h ! r = h ! r)"
proof (cases "sel_single G values g cameraPlane frustum i \<and> cell_end g i - cell_begin g i \<noteq> 0")
  case False
  then have "cull_cell_lod G values g lods ml cameraPlane frustum i h = h"
    by (auto simp: cull_cell_lod_def sel_single_def in_overall_range_def in_frustum_def within_def
          cell_sphere_def cell_distance_def cell_begin_def cell_end_def Let_def not_less)
  moreover have "level_cell G values g lods cameraPlane frustum j i l = l" for j l
    using False by (auto simp: level_cell_def sel_level_def)
  ultimately show ?thesis by simp
next
  case True
  then have eq: "cull_cell_lod G values g lods ml cameraPlane frustum i h
           = fold (cull_level lods ml (cell_distance G g cameraPlane i) (cell_sphere g i)
                     (cell_begin g i) (cell_end g i - cell_begin g i)) [0..<length ml] h"
    by (auto simp: cull_cell_lod_def sel_single_def in_overall_range_def in_frustum_def within_def
          cell_sphere_def cell_distance_def cell_begin_def cell_end_def Let_def not_less assms(2))
  have lc: "level_cell G values g lods cameraPlane frustum j i l =
         (if within (lvMinDistance (lods ! j)) (lvMaxDistance (lods ! j))
               (cell_distance G g cameraPlane i) (radius (cell_sphere g i))
          then put_level (lvCount (lods ! j)) (cell_begin g i) (cell_end g i - cell_begin g i) l else l)" for j l
    using True by (simp add: level_cell_def sel_level_def in_level_range_def)
  show ?thesis
    unfolding eq lc
    using fold_cull_level[OF assms(1) le_refl assms(3), of lods "cell_distance G g cameraPlane i"
        "cell_sphere g i" "cell_begin g i" "cell_end g i - cell_begin g i"]
    by simp
qed

lemma fold_cull_cell_lod:
  assumes "distinct ml" "length ml = length lods" "\<forall>r\<in>set ml. r < length h"
  shows "length (fold (cull_cell_lod G values g lods ml cameraPlane frustum) [0..<n] h) = length h
       \<and> (\<forall>j<length ml. fold (cull_cell_lod G values g lods ml cameraPlane frustum) [0..<n] h ! (ml ! j)
             = fold (level_cell G values g lods cameraPlane frustum j) [0..<n] (h ! (ml ! j)))
       \<and> (\<forall>r. r \<notin> set ml \<longrightarrow> fold (cull_cell_lod G values g lods ml cameraPlane frustum) [0..<n] h ! r = h ! r)"
proof (induction n)
  case 0
  show ?case by simp
next
  case (Suc n)
  let ?h = "fold (cull_cell_lod G values g lods ml cameraPlane frustum) [0..<n] h"
  have r: "\<forall>r\<in>set ml. r < length ?h" using Suc assms(3) by simp
  show ?case
    using cull_cell_lod_nth[OF assms(1,2) r, of G "values" g cameraPlane frustum n] Suc
    by simp
qed

lemma newMdbData_props [simp]:
  "count (newMdbData n) = 0" "capacity (newMdbData n) = n" "same_capacity (newMdbData n)"
  "uniforms (newMdbData n) = []" "(newMdbData n)\<lparr>count := 0\<rparr> = newMdbData n"
  by (simp_all add: newMdbData_def capacity_def same_capacity_def)

lemma same_capacity_count [simp]: "same_capacity (md\<lparr>count := k\<rparr>) = same_capacity md"
  by (simp add: same_capacity_def)

lemma capacity_count [simp]: "capacity (md\<lparr>count := k\<rparr>) = capacity md"
  by (simp add: capacity_def)

lemma distinct_nth_notin_take: "distinct xs \<Longrightarrow> i < length xs \<Longrightarrow> xs ! i \<notin> set (take i xs)"
  by (auto simp: in_set_conv_nth distinct_conv_nth)

lemma set_take_Suc: "i < length xs \<Longrightarrow> set (take (Suc i) xs) = insert (xs ! i) (set (take i xs))"
  by (simp add: take_Suc_conv_app_nth)

lemma set_update_same_capacity:
  "\<forall>md\<in>set h. same_capacity md \<Longrightarrow> same_capacity x \<Longrightarrow> \<forall>md\<in>set (h[r := x]). same_capacity md"
  by (metis in_set_conv_nth length_list_update nth_list_update_eq nth_list_update_neq nth_mem)

lemma reset_batch_step:
  assumes inv: "reset_inv n old h0 m (h, l)"
      and old: "distinct old" "\<forall>r\<in>set old. r < length h0"
  shows "reset_inv n old h0 (Suc m) (reset_batch n old m (h, l))"
proof -
  from inv have I: "length l = m" "length h0 \<le> length h" "distinct l" "\<forall>r\<in>set l. r < length h"
      "set l \<subseteq> set (take m old) \<union> {length h0..<length h}"
      "\<forall>md\<in>set h. same_capacity md"
      "\<forall>r<length h0. r \<notin> set l \<longrightarrow> h ! r = h0 ! r"
      "(\<forall>j<m. reuses n old h0 j) \<longrightarrow> length h = length h0"
      "\<forall>j<m. if reuses n old h0 j then l ! j = old ! j \<and> h ! (l ! j) = (h0 ! (old ! j))\<lparr>count := 0\<rparr>
               else length h0 \<le> l ! j \<and> h ! (l ! j) = newMdbData n"
      "\<forall>r<length h. capacity (h ! r) = (if r < length h0 then capacity (h0 ! r) else n)"
      "length h = length h0 + length (filter (\<lambda>j. \<not> reuses n old h0 j) [0..<m])"
    unfolding reset_inv_def prod.case by blast+
  show ?thesis
  proof (cases "reuses n old h0 m")
    case True
    then have m: "m < length old" and cap: "n \<le> capacity (h0 ! (old ! m))"
      by (simp_all add: reuses_def)
    have r0: "old ! m < length h0" using old(2) m by simp
    have notin: "old ! m \<notin> set l"
      using I(5) distinct_nth_notin_take[OF old(1) m] r0 by auto
    then have same: "h ! (old ! m) = h0 ! (old ! m)" using I(7) r0 by simp
    have step: "reset_batch n old m (h, l) = (h[old ! m := (h0 ! (old ! m))\<lparr>count := 0\<rparr>], l @ [old ! m])"
      using m cap same by (simp add: reset_batch_def getMdbData_def capacity_def)
    have sc: "same_capacity ((h0 ! (old ! m))\<lparr>count := 0\<rparr>)"
      using I(6) same r0 I(2) by (metis same_capacity_count nth_mem le_trans not_le)
    have "\<forall>j<Suc m. if reuses n old h0 j
             then (l @ [old ! m]) ! j = old ! j
                  \<and> h[old ! m := (h0 ! (old ! m))\<lparr>count := 0\<rparr>] ! ((l @ [old ! m]) ! j) = (h0 ! (old ! j))\<lparr>count := 0\<rparr>
             else length h0 \<le> (l @ [old ! m]) ! j
                  \<and> h[old ! m := (h0 ! (old ! m))\<lparr>count := 0\<rparr>] ! ((l @ [old ! m]) ! j) = newMdbData n"
    proof (intro allI impI)
      fix j assume j: "j < Suc m"
      show "if reuses n old h0 j
             then (l @ [old ! m]) ! j = old ! j
                  \<and> h[old ! m := (h0 ! (old ! m))\<lparr>count := 0\<rparr>] ! ((l @ [old ! m]) ! j) = (h0 ! (old ! j))\<lparr>count := 0\<rparr>
             else length h0 \<le> (l @ [old ! m]) ! j
                  \<and> h[old ! m := (h0 ! (old ! m))\<lparr>count := 0\<rparr>] ! ((l @ [old ! m]) ! j) = newMdbData n"
      proof (cases "j = m")
        case True
        with \<open>reuses n old h0 m\<close> I(1,2) r0 show ?thesis by (simp add: nth_append)
      next
        case False
        with j have jm: "j < m" by simp
        then have "l ! j \<in> set l" using I(1) by simp
        with notin have ne: "l ! j \<noteq> old ! m" by auto
        from I(9) jm have inst: "if reuses n old h0 j
               then l ! j = old ! j \<and> h ! (l ! j) = (h0 ! (old ! j))\<lparr>count := 0\<rparr>
               else length h0 \<le> l ! j \<and> h ! (l ! j) = newMdbData n" by blast
        have "(l @ [old ! m]) ! j = l ! j" using jm I(1) by (simp add: nth_append)
        moreover have "h[old ! m := (h0 ! (old ! m))\<lparr>count := 0\<rparr>] ! (l ! j) = h ! (l ! j)"
          using ne by simp
        ultimately show ?thesis using inst by (simp only:)
      qed
    qed
    moreover have "set (l @ [old ! m]) \<subseteq> set (take (Suc m) old) \<union> {length h0..<length h}"
      using I(5) m by (auto simp: set_take_Suc)
    moreover have "\<forall>r<length h0. r \<notin> set (l @ [old ! m]) \<longrightarrow> h[old ! m := (h0 ! (old ! m))\<lparr>count := 0\<rparr>] ! r = h0 ! r"
      using I(7) by auto
    moreover have "\<forall>md\<in>set (h[old ! m := (h0 ! (old ! m))\<lparr>count := 0\<rparr>]). same_capacity md"
      using set_update_same_capacity[OF I(6) sc] .
    moreover have "(\<forall>j<Suc m. reuses n old h0 j) \<longrightarrow> length h = length h0"
      using I(8) by simp
    moreover have "\<forall>r<length h. capacity (h[old ! m := (h0 ! (old ! m))\<lparr>count := 0\<rparr>] ! r)
                      = (if r < length h0 then capacity (h0 ! r) else n)"
    proof (intro allI impI)
      fix r assume r: "r < length h"
      show "capacity (h[old ! m := (h0 ! (old ! m))\<lparr>count := 0\<rparr>] ! r)
                      = (if r < length h0 then capacity (h0 ! r) else n)"
      proof (cases "r = old ! m")
        case True
        then show ?thesis using r r0 by simp
      next
        case False
        then have "h[old ! m := (h0 ! (old ! m))\<lparr>count := 0\<rparr>] ! r = h ! r" by simp
        then show ?thesis using I(10) r by simp
      qed
    qed
    moreover have "length h = length h0 + length (filter (\<lambda>j. \<not> reuses n old h0 j) [0..<Suc m])"
      using I(11) True by simp
    ultimately show ?thesis
      unfolding step reset_inv_def using I(1-4) notin r0 by simp
  next
    case False
    have arg: "(if m < length old then Some (old ! m) else None) = Some r \<Longrightarrow> \<not> n \<le> length (instanceCounts (h ! r))" for r
    proof -
      assume a: "(if m < length old then Some (old ! m) else None) = Some r"
      then have m: "m < length old" and r: "r = old ! m" by (auto split: if_splits)
      have r0: "old ! m < length h0" using old(2) m by simp
      have "old ! m \<notin> set l"
        using I(5) distinct_nth_notin_take[OF old(1) m] r0 by auto
      then have "h ! (old ! m) = h0 ! (old ! m)" using I(7) r0 by simp
      with False m r show ?thesis by (simp add: reuses_def capacity_def)
    qed
    have step: "reset_batch n old m (h, l) = (h @ [newMdbData n], l @ [length h])"
      using arg by (auto simp: reset_batch_def getMdbData_def split: option.splits)
    have notin: "length h \<notin> set l" using I(4) by auto
    have "\<forall>j<Suc m. if reuses n old h0 j
             then (l @ [length h]) ! j = old ! j
                  \<and> (h @ [newMdbData n]) ! ((l @ [length h]) ! j) = (h0 ! (old ! j))\<lparr>count := 0\<rparr>
             else length h0 \<le> (l @ [length h]) ! j
                  \<and> (h @ [newMdbData n]) ! ((l @ [length h]) ! j) = newMdbData n"
    proof (intro allI impI)
      fix j assume j: "j < Suc m"
      show "if reuses n old h0 j
             then (l @ [length h]) ! j = old ! j
                  \<and> (h @ [newMdbData n]) ! ((l @ [length h]) ! j) = (h0 ! (old ! j))\<lparr>count := 0\<rparr>
             else length h0 \<le> (l @ [length h]) ! j
                  \<and> (h @ [newMdbData n]) ! ((l @ [length h]) ! j) = newMdbData n"
      proof (cases "j = m")
        case True
        with False I(1,2) show ?thesis by (simp add: nth_append)
      next
        case False
        with j have jm: "j < m" by simp
        then have "l ! j \<in> set l" using I(1) by simp
        with I(4) have lt: "l ! j < length h" by auto
        from I(9) jm have inst: "if reuses n old h0 j
               then l ! j = old ! j \<and> h ! (l ! j) = (h0 ! (old ! j))\<lparr>count := 0\<rparr>
               else length h0 \<le> l ! j \<and> h ! (l ! j) = newMdbData n" by blast
        have "(l @ [length h]) ! j = l ! j" using jm I(1) by (simp add: nth_append)
        moreover have "(h @ [newMdbData n]) ! (l ! j) = h ! (l ! j)"
          using lt by (simp add: nth_append)
        ultimately show ?thesis using inst by (simp only:)
      qed
    qed
    moreover have "set (l @ [length h]) \<subseteq> set (take (Suc m) old) \<union> {length h0..<length (h @ [newMdbData n])}"
    proof -
      have "set (take m old) \<subseteq> set (take (Suc m) old)" by (rule set_take_subset_set_take) simp
      with I(5) I(2) show ?thesis by auto
    qed
    moreover have "\<forall>r<length h0. r \<notin> set (l @ [length h]) \<longrightarrow> (h @ [newMdbData n]) ! r = h0 ! r"
      using I(7) I(2) by (auto simp: nth_append)
    moreover have "\<forall>md\<in>set (h @ [newMdbData n]). same_capacity md"
      using I(6) by auto
    moreover have "\<forall>r\<in>set (l @ [length h]). r < length (h @ [newMdbData n])"
      using I(4) by auto
    moreover have "\<not> (\<forall>j<Suc m. reuses n old h0 j)" using False by auto
    moreover have "\<forall>r<length (h @ [newMdbData n]). capacity ((h @ [newMdbData n]) ! r)
                      = (if r < length h0 then capacity (h0 ! r) else n)"
      using I(10) I(2) by (auto simp: nth_append less_Suc_eq)
    moreover have "length (h @ [newMdbData n])
                     = length h0 + length (filter (\<lambda>j. \<not> reuses n old h0 j) [0..<Suc m])"
      using I(11) False by simp
    ultimately show ?thesis
      unfolding step reset_inv_def using I(1-3) notin by simp
  qed
qed

lemma fold_reset_batch:
  assumes "distinct old" "\<forall>r\<in>set old. r < length h0" "\<forall>md\<in>set h0. same_capacity md"
  shows "reset_inv n old h0 m (fold (reset_batch n old) [0..<m] (h0, []))"
proof (induction m)
  case 0
  show ?case using assms(3) by (simp add: reset_inv_def)
next
  case (Suc m)
  obtain h l where f: "fold (reset_batch n old) [0..<m] (h0, []) = (h, l)"
    by (cases "fold (reset_batch n old) [0..<m] (h0, [])")
  with Suc reset_batch_step[OF _ assms(1,2), of n m h l] show ?case by simp
qed

lemma update_uniform_eq:
  "update_uniform lods ml i h = h[ml ! i := set_uniform (lods ! i) (h ! (ml ! i))]"
  by (simp add: update_uniform_def set_uniform_def Let_def)

lemma set_uniform_props [simp]:
  "count (set_uniform lv md) = count md" "same_capacity (set_uniform lv md) = same_capacity md"
  "capacity (set_uniform lv md) = capacity md"
  "instanceCounts (set_uniform lv md) = instanceCounts md"
  by (simp_all add: set_uniform_def same_capacity_def capacity_def)

lemma fold_update_uniform:
  assumes "distinct ml" "m \<le> length ml" "\<forall>r\<in>set ml. r < length h"
  shows "length (fold (update_uniform lods ml) [0..<m] h) = length h
       \<and> (\<forall>j<length ml. fold (update_uniform lods ml) [0..<m] h ! (ml ! j) =
            (if j < m then set_uniform (lods ! j) (h ! (ml ! j)) else h ! (ml ! j)))
       \<and> (\<forall>r. r \<notin> set ml \<longrightarrow> fold (update_uniform lods ml) [0..<m] h ! r = h ! r)"
  using assms(2)
proof (induction m)
  case 0
  show ?case by simp
next
  case (Suc m)
  let ?h = "fold (update_uniform lods ml) [0..<m] h"
  from Suc have IH: "length ?h = length h"
     "\<And>j. j < length ml \<Longrightarrow> ?h ! (ml ! j) = (if j < m then set_uniform (lods ! j) (h ! (ml ! j)) else h ! (ml ! j))"
     "\<And>r. r \<notin> set ml \<Longrightarrow> ?h ! r = h ! r"
    by simp_all
  have m: "m < length ml" using Suc.prems by simp
  have hm: "?h ! (ml ! m) = h ! (ml ! m)" using IH(2)[OF m] by simp
  have rm: "ml ! m < length ?h" using m assms(3) IH(1) by simp
  have step: "fold (update_uniform lods ml) [0..<Suc m] h
              = ?h[ml ! m := set_uniform (lods ! m) (h ! (ml ! m))]"
    by (simp add: update_uniform_eq hm)
  have "?h[ml ! m := x] ! (ml ! j) = (if j = m then x else ?h ! (ml ! j))" if "j < length ml" for j x
    using that m rm assms(1) by (auto simp: nth_eq_iff_index_eq)
  moreover have "?h[ml ! m := x] ! r = ?h ! r" if "r \<notin> set ml" for r x
    using that m by (metis nth_list_update_neq nth_mem)
  ultimately show ?case
    unfolding step using IH by (auto simp: less_Suc_eq)
qed

lemma wf_state_same_capacity: "wf_state st \<Longrightarrow> r < length (store st) \<Longrightarrow> same_capacity (store st ! r)"
  by (simp add: wf_state_def)

text \<open>The single batch of a call without LOD levels.\<close>

lemma cull_single_batch:
  fixes G :: "('p, 'f, 'n::{zero,plus,minus,linorder}) primitives" and vals g cameraPlane frustum st
  assumes wf: "wf_state st"
  defines "st' \<equiv> cull_single G vals g cameraPlane frustum st"
  shows "mdbDataList st' = [mdbData st']" "wf_state st'"
    "entries (count (store st' ! mdbData st')) (store st' ! mdbData st')
       = run_entries False (drawCount vals) (sel_single G vals g cameraPlane frustum)
           (cellOffsets g) (cellCount g)"
    "count (store st' ! mdbData st') \<le> cellCount g"
    "cellCount g \<le> capacity (store st' ! mdbData st')"
    "uniforms (store st' ! mdbData st') = []"
    "cullEnabled st' = cullEnabled st" "lodLevelsVersion st' = lodLevelsVersion st"
    "uniformUpdates st' = uniformUpdates st"
proof -
  obtain r h where gm: "getMdbData (cellCount g) (Some (mdbData st)) (store st) = (r, h)"
    by (cases "getMdbData (cellCount g) (Some (mdbData st)) (store st)")
  have rh: "r < length h" "cellCount g \<le> capacity (h ! r)" "\<forall>md\<in>set h. same_capacity md"
    using gm wf
    by (auto simp: getMdbData_def wf_state_def capacity_def nth_append newMdbData_def
          same_capacity_def split: if_splits)
  have sc: "same_capacity (h ! r)" using rh(1,3) by simp
  obtain md k where f: "fold (cull_cell G vals g cameraPlane frustum) [0..<cellCount g] (h ! r, 0) = (md, k)"
    by (cases "fold (cull_cell G vals g cameraPlane frustum) [0..<cellCount g] (h ! r, 0)")
  have st': "st' = st\<lparr>store := h[r := md\<lparr>count := k, uniforms := []\<rparr>], mdbData := r, mdbDataList := [r]\<rparr>"
    by (simp add: st'_def cull_single_def gm f)
  from fold_cull_cell[OF sc, where n = "cellCount g" and G = G and g = g
         and cameraPlane = cameraPlane and frustum = frustum and vals = vals] rh(2) f
  have F: "entries k md = run_entries False (drawCount vals)
                             (sel_single G vals g cameraPlane frustum) (cellOffsets g) (cellCount g)"
      "k \<le> cellCount g" "same_capacity md" "same_rest k (h ! r) md"
    by (simp_all add: capacity_def)
  have b: "store st' ! mdbData st' = md\<lparr>count := k, uniforms := []\<rparr>"
    using rh(1) by (simp add: st')
  have e: "entries k (md\<lparr>count := k, uniforms := []\<rparr>) = entries k md"
    by (simp add: entries_def)
  have cap: "capacity (md\<lparr>count := k, uniforms := []\<rparr>) = capacity (h ! r)"
    using F(4) by (simp add: capacity_def same_rest_def)
  have sc': "same_capacity (md\<lparr>count := k, uniforms := []\<rparr>)"
    using F(3) by (simp add: same_capacity_def)
  show "mdbDataList st' = [mdbData st']" by (simp add: st')
  show "wf_state st'"
    using rh(1) set_update_same_capacity[OF rh(3) sc'] by (simp add: st' wf_state_def)
  show "entries (count (store st' ! mdbData st')) (store st' ! mdbData st')
       = run_entries False (drawCount vals) (sel_single G vals g cameraPlane frustum)
           (cellOffsets g) (cellCount g)"
    unfolding b using e F(1) by simp
  show "count (store st' ! mdbData st') \<le> cellCount g" unfolding b using F(2) by simp
  show "cellCount g \<le> capacity (store st' ! mdbData st')" unfolding b cap using rh(2) .
  show "uniforms (store st' ! mdbData st') = []" unfolding b by simp
  show "cullEnabled st' = cullEnabled st" "lodLevelsVersion st' = lodLevelsVersion st"
    "uniformUpdates st' = uniformUpdates st"
    by (simp_all add: st')
qed

lemma cull_lod_decomp:
  fixes G :: "('p, 'f, 'n::{zero,plus,minus,linorder}) primitives" and "values" g ref cameraPlane frustum st
  assumes wf: "wf_state st"
  shows "\<exists>h1 ml. lod_decomp G values g ref cameraPlane frustum st h1 ml"
proof -
  define st' where "st' = cull_lod G values g ref cameraPlane frustum st"
  define lods where "lods = ref_value ref"
  obtain h1 ml where r: "fold (reset_batch (cellCount g) (mdbDataList st)) [0..<length lods] (store st, []) = (h1, ml)"
    by (cases "fold (reset_batch (cellCount g) (mdbDataList st)) [0..<length lods] (store st, [])")
  have inv: "reset_inv (cellCount g) (mdbDataList st) (store st) (length lods) (h1, ml)"
    using fold_reset_batch[of "mdbDataList st" "store st" "cellCount g" "length lods"] wf r
    by (simp add: wf_state_def)
  then have I: "length ml = length lods" "distinct ml" "\<forall>r\<in>set ml. r < length h1"
    unfolding reset_inv_def prod.case by blast+
  define h2 where "h2 = (if ref_version ref \<noteq> lodLevelsVersion st
                          then fold (update_uniform lods ml) [0..<length lods] h1 else h1)"
  have h2: "length h2 = length h1"
      "\<And>j. j < length lods \<Longrightarrow> h2 ! (ml ! j) = (if ref_version ref \<noteq> lodLevelsVersion st
           then set_uniform (lods ! j) (h1 ! (ml ! j)) else h1 ! (ml ! j))"
      "\<And>r. r \<notin> set ml \<Longrightarrow> h2 ! r = h1 ! r"
    using fold_update_uniform[OF I(2) _ I(3), of "length lods" lods] I(1)
    by (simp_all add: h2_def)
  have r2: "\<forall>r\<in>set ml. r < length h2" using I(3) h2(1) by simp
  have st': "store st' = fold (cull_cell_lod G values g lods ml cameraPlane frustum) [0..<cellCount g] h2"
      "mdbDataList st' = ml"
    by (simp_all add: st'_def cull_lod_def Let_def r[unfolded lods_def] h2_def lods_def)
  note F = fold_cull_cell_lod[OF I(2) I(1) r2, of G "values" g cameraPlane frustum "cellCount g"]
  have "length (store st') = length h1" using F h2(1) by (simp add: st'(1))
  moreover have "store st' ! (ml ! j) =
        fold (level_cell G values g lods cameraPlane frustum j) [0..<cellCount g]
          (if ref_version ref \<noteq> lodLevelsVersion st
           then set_uniform (lods ! j) (h1 ! (ml ! j)) else h1 ! (ml ! j))" if "j < length lods" for j
      using F that I(1) h2(2)[OF that] by (simp add: st'(1))
  moreover have "store st' ! r = h1 ! r" if "r \<notin> set ml" for r
      using F that h2(3)[OF that] by (simp add: st'(1))
  ultimately have "lod_decomp G values g ref cameraPlane frustum st h1 ml"
    using inv st'(2) unfolding lod_decomp_def st'_def lods_def by blast
  then show ?thesis by blast
qed

lemma cull_lod_fields:
  "cullEnabled (cull_lod G values g ref cameraPlane frustum st) = cullEnabled st"
  "mdbData (cull_lod G values g ref cameraPlane frustum st) = mdbData st"
  "lodLevelsVersion (cull_lod G values g ref cameraPlane frustum st) = ref_version ref"
  "uniformUpdates (cull_lod G values g ref cameraPlane frustum st) =
     (if ref_version ref \<noteq> lodLevelsVersion st then uniformUpdates st + length (ref_value ref)
      else uniformUpdates st)"
  by (simp_all add: cull_lod_def Let_def case_prod_beta)

lemma cull_lod_batches:
  fixes G :: "('p, 'f, 'n::{zero,plus,minus,linorder}) primitives" and vals g ref cameraPlane frustum st
  assumes wf: "wf_state st"
  defines "st' \<equiv> cull_lod G vals g ref cameraPlane frustum st"
      and "lods \<equiv> ref_value ref"
  shows "length (mdbDataList st') = length lods" "wf_state st'"
    "\<And>j. j < length lods \<Longrightarrow>
       entries (count (store st' ! (mdbDataList st' ! j))) (store st' ! (mdbDataList st' ! j))
       = run_entries True (lvCount (lods ! j)) (sel_level G vals g lods cameraPlane frustum j)
           (cellOffsets g) (cellCount g)"
    "\<And>j. j < length lods \<Longrightarrow> count (store st' ! (mdbDataList st' ! j)) \<le> cellCount g"
    "\<And>j. j < length lods \<Longrightarrow> cellCount g \<le> capacity (store st' ! (mdbDataList st' ! j))"
proof -
  from cull_lod_decomp[OF wf, of G vals g ref cameraPlane frustum] obtain h1 ml
    where "lod_decomp G vals g ref cameraPlane frustum st h1 ml" by blast
  then have D: "reset_inv (cellCount g) (mdbDataList st) (store st) (length lods) (h1, ml)"
    "mdbDataList st' = ml" "length (store st') = length h1"
    "\<And>j. j < length lods \<Longrightarrow> store st' ! (ml ! j) =
        fold (level_cell G vals g lods cameraPlane frustum j) [0..<cellCount g]
          (if ref_version ref \<noteq> lodLevelsVersion st
           then set_uniform (lods ! j) (h1 ! (ml ! j)) else h1 ! (ml ! j))"
    "\<And>r. r \<notin> set ml \<Longrightarrow> store st' ! r = h1 ! r"
    unfolding lod_decomp_def st'_def lods_def by blast+
  from D(1) have I: "length ml = length lods" "length (store st) \<le> length h1" "distinct ml"
      "\<forall>r\<in>set ml. r < length h1" "\<forall>md\<in>set h1. same_capacity md"
      "\<forall>j<length lods. if reuses (cellCount g) (mdbDataList st) (store st) j
          then ml ! j = mdbDataList st ! j \<and> h1 ! (ml ! j) = (store st ! (mdbDataList st ! j))\<lparr>count := 0\<rparr>
          else length (store st) \<le> ml ! j \<and> h1 ! (ml ! j) = newMdbData (cellCount g)"
    unfolding reset_inv_def prod.case by blast+
  have o1: "count (h1 ! (ml ! j)) = 0 \<and> cellCount g \<le> capacity (h1 ! (ml ! j)) \<and> same_capacity (h1 ! (ml ! j))"
    if "j < length lods" for j
  proof -
    have "ml ! j < length h1" using I(1,4) that by simp
    then have "same_capacity (h1 ! (ml ! j))" using I(5) by simp
    moreover have "count (h1 ! (ml ! j)) = 0 \<and> cellCount g \<le> capacity (h1 ! (ml ! j))"
      using I(6) that by (auto simp: reuses_def split: if_splits)
    ultimately show ?thesis by simp
  qed
  define o2 where "o2 j = (if ref_version ref \<noteq> lodLevelsVersion st
           then set_uniform (lods ! j) (h1 ! (ml ! j)) else h1 ! (ml ! j))" for j
  have o2: "count (o2 j) = 0" "cellCount g \<le> length (instanceCounts (o2 j))" "same_capacity (o2 j)"
    if "j < length lods" for j
    using o1[OF that] by (simp_all add: o2_def capacity_def)
  have fin: "store st' ! (mdbDataList st' ! j) =
        fold (level_cell G vals g lods cameraPlane frustum j) [0..<cellCount g] (o2 j)"
    if "j < length lods" for j
    using D(4)[OF that] by (simp add: D(2) o2_def)
  note L = fold_level_cell[where n = "cellCount g" and G = G and vals = vals and g = g
              and lods = lods and cameraPlane = cameraPlane and frustum = frustum]
  show "length (mdbDataList st') = length lods" using D(2) I(1) by simp
  show "entries (count (store st' ! (mdbDataList st' ! j))) (store st' ! (mdbDataList st' ! j))
       = run_entries True (lvCount (lods ! j)) (sel_level G vals g lods cameraPlane frustum j)
           (cellOffsets g) (cellCount g)" if "j < length lods" for j
    unfolding fin[OF that] using L[OF o2(3)[OF that] o2(2)[OF that] o2(1)[OF that]] by simp
  show "count (store st' ! (mdbDataList st' ! j)) \<le> cellCount g" if "j < length lods" for j
    unfolding fin[OF that] using L[OF o2(3)[OF that] o2(2)[OF that] o2(1)[OF that]] by simp
  show "cellCount g \<le> capacity (store st' ! (mdbDataList st' ! j))" if "j < length lods" for j
    unfolding fin[OF that] using L[OF o2(3)[OF that] o2(2)[OF that] o2(1)[OF that], of j] o2(2)[OF that]
    by (simp add: same_rest_def capacity_def)
  show "wf_state st'"
  proof -
    have "same_capacity (store st' ! r)" if r: "r < length (store st')" for r
    proof (cases "r \<in> set ml")
      case True
      then obtain j where j: "j < length lods" "r = ml ! j" using I(1) by (auto simp: in_set_conv_nth)
      show ?thesis
        using L[OF o2(3)[OF j(1)] o2(2)[OF j(1)] o2(1)[OF j(1)], of j] fin[OF j(1)] j(2) D(2) by simp
    next
      case False
      then show ?thesis using D(5)[OF False] I(5) r D(3) by simp
    qed
    then have "\<forall>md\<in>set (store st'). same_capacity md" by (auto simp: in_set_conv_nth)
    moreover have "mdbData st' < length (store st')"
      using wf I(2) D(3) by (simp add: st'_def cull_lod_fields wf_state_def)
    ultimately show ?thesis
      using D(2,3) I(3,4) by (simp add: wf_state_def)
  qed
qed

lemma wf_state_cullEnabled [simp]: "wf_state (st\<lparr>cullEnabled := x\<rparr>) = wf_state st"
  by (simp add: wf_state_def)

lemma batches_cullEnabled [simp]: "batches (st\<lparr>cullEnabled := x\<rparr>) = batches st"
  by (simp add: batches_def)

lemma cull_cases:
  assumes "cull_ready values g"
  shows "cull G values cameraPlane frustum st =
     (if lod_levels values = []
      then (cull_single G values g cameraPlane frustum (st\<lparr>cullEnabled := False\<rparr>))\<lparr>cullEnabled := True\<rparr>
      else (cull_lod G values g (the (lodLevels values)) cameraPlane frustum
              (st\<lparr>cullEnabled := False\<rparr>))\<lparr>cullEnabled := True\<rparr>)"
  using assms by (auto simp: cull_def cull_ready_def lod_levels_def Let_def split: option.splits)

lemma cull_batches:
  fixes G :: "('p, 'f, 'n::{zero,plus,minus,linorder}) primitives" and vals g cameraPlane frustum st
  assumes wf: "wf_state st" and ready: "cull_ready vals g"
  defines "st' \<equiv> cull G vals cameraPlane frustum st"
  shows "cullEnabled st'" "wf_state st'"
    "length (batches st') = (if lod_levels vals = [] then 1 else length (lod_levels vals))"
    "\<And>j. j < length (batches st') \<Longrightarrow>
       entries (count (batches st' ! j)) (batches st' ! j)
       = run_entries (lod_levels vals \<noteq> []) (batch_drawCount vals j)
           (selects G vals g cameraPlane frustum j) (cellOffsets g) (cellCount g)"
    "\<And>j. j < length (batches st') \<Longrightarrow> count (batches st' ! j) \<le> cellCount g"
    "\<And>j. j < length (batches st') \<Longrightarrow> cellCount g \<le> capacity (batches st' ! j)"
proof -
  let ?st0 = "st\<lparr>cullEnabled := False\<rparr>"
  have wf0: "wf_state ?st0" using wf by simp
  show "cullEnabled st'" unfolding st'_def cull_cases[OF ready] by simp
  show "wf_state st'"
    unfolding st'_def cull_cases[OF ready]
    using cull_single_batch(2)[OF wf0, where G = G and vals = vals and g = g
          and cameraPlane = cameraPlane and frustum = frustum]
          cull_lod_batches(2)[OF wf0, where G = G and vals = vals and g = g
          and ref = "the (lodLevels vals)" and cameraPlane = cameraPlane and frustum = frustum]
    by simp
  show len: "length (batches st') = (if lod_levels vals = [] then 1 else length (lod_levels vals))"
    unfolding st'_def cull_cases[OF ready]
    using cull_single_batch(1)[OF wf0, where G = G and vals = vals and g = g
          and cameraPlane = cameraPlane and frustum = frustum]
          cull_lod_batches(1)[OF wf0, where G = G and vals = vals and g = g
          and ref = "the (lodLevels vals)" and cameraPlane = cameraPlane and frustum = frustum]
    by (auto simp: batches_def lod_levels_def split: option.splits)
  show "entries (count (batches st' ! j)) (batches st' ! j)
       = run_entries (lod_levels vals \<noteq> []) (batch_drawCount vals j)
           (selects G vals g cameraPlane frustum j) (cellOffsets g) (cellCount g)"
      "count (batches st' ! j) \<le> cellCount g" "cellCount g \<le> capacity (batches st' ! j)"
    if j: "j < length (batches st')" for j
  proof -
    show "entries (count (batches st' ! j)) (batches st' ! j)
       = run_entries (lod_levels vals \<noteq> []) (batch_drawCount vals j)
           (selects G vals g cameraPlane frustum j) (cellOffsets g) (cellCount g)"
       "count (batches st' ! j) \<le> cellCount g" "cellCount g \<le> capacity (batches st' ! j)"
    proof (atomize (full), cases "lod_levels vals = []")
      case True
      let ?s = "cull_single G vals g cameraPlane frustum ?st0"
      have eq: "st' = ?s\<lparr>cullEnabled := True\<rparr>" using True by (simp add: st'_def cull_cases[OF ready])
      have j0: "j = 0" using j len True by simp
      have b: "batches st' ! j = store ?s ! mdbData ?s"
        using cull_single_batch(1)[OF wf0, where G = G and vals = vals and g = g
          and cameraPlane = cameraPlane and frustum = frustum]
        by (simp add: eq batches_def j0)
      have sel: "selects G vals g cameraPlane frustum j = sel_single G vals g cameraPlane frustum"
        using True by (auto simp: selects_def sel_single_def fun_eq_iff)
      show "entries (count (batches st' ! j)) (batches st' ! j)
       = run_entries (lod_levels vals \<noteq> []) (batch_drawCount vals j)
           (selects G vals g cameraPlane frustum j) (cellOffsets g) (cellCount g)
          \<and> count (batches st' ! j) \<le> cellCount g \<and> cellCount g \<le> capacity (batches st' ! j)"
        unfolding b sel using cull_single_batch(3,4,5)[OF wf0, where G = G and vals = vals and g = g
          and cameraPlane = cameraPlane and frustum = frustum] True
        by (simp add: batch_drawCount_def)
    next
      case False
      let ?ref = "the (lodLevels vals)"
      let ?s = "cull_lod G vals g ?ref cameraPlane frustum ?st0"
      have lods: "ref_value ?ref = lod_levels vals"
        using False by (auto simp: lod_levels_def split: option.splits)
      have eq: "st' = ?s\<lparr>cullEnabled := True\<rparr>" using False by (simp add: st'_def cull_cases[OF ready])
      have jl: "j < length (ref_value ?ref)" using j len False lods by simp
      have b: "batches st' ! j = store ?s ! (mdbDataList ?s ! j)"
        using cull_lod_batches(1)[OF wf0, where G = G and vals = vals and g = g
          and ref = ?ref and cameraPlane = cameraPlane and frustum = frustum] jl
        by (simp add: eq batches_def)
      have sel: "selects G vals g cameraPlane frustum j
                 = sel_level G vals g (ref_value ?ref) cameraPlane frustum j"
        using False by (auto simp: selects_def sel_level_def sel_single_def fun_eq_iff lods)
      show "entries (count (batches st' ! j)) (batches st' ! j)
       = run_entries (lod_levels vals \<noteq> []) (batch_drawCount vals j)
           (selects G vals g cameraPlane frustum j) (cellOffsets g) (cellCount g)
          \<and> count (batches st' ! j) \<le> cellCount g \<and> cellCount g \<le> capacity (batches st' ! j)"
        unfolding b sel
        using cull_lod_batches(3,4,5)[OF wf0 jl, where G = G and vals = vals and g = g
          and cameraPlane = cameraPlane and frustum = frustum] False
        by (simp add: batch_drawCount_def lods)
    qed
  qed
qed

lemma length_entries [simp]: "length (entries k b) = k"
  by (simp add: entries_def)

lemma nth_entries:
  "i < k \<Longrightarrow> entries k b ! i = (baseInstances b ! i, instanceCounts b ! i, counts b ! i)"
  by (simp add: entries_def)

lemma entries_base_end:
  "i < k \<Longrightarrow> e_base (entries k b ! i) = baseInstances b ! i"
  "i < k \<Longrightarrow> e_size (entries k b ! i) = instanceCounts b ! i"
  "i < k \<Longrightarrow> e_end (entries k b ! i) = baseInstances b ! i + instanceCounts b ! i"
  by (simp_all add: nth_entries e_base_def e_size_def e_end_def)

lemma grid_offsets_ok:
  "grid_partition g n \<Longrightarrow> n < 2147483648 \<Longrightarrow> offsets_ok (cellOffsets g) (cellCount g)"
  by (simp add: grid_partition_def offsets_ok_def)

lemma ranges_disjoint:
  assumes ok: "offsets_ok offs N" and i: "i < N" "i' < N"
      and x: "offs ! i \<le> x" "x < offs ! (i + 1)" "offs ! i' \<le> x" "x < offs ! (i' + 1)"
  shows "i = i'"
proof (rule ccontr)
  assume "i \<noteq> i'"
  then consider "i < i'" | "i' < i" by linarith
  then show False
  proof cases
    case 1
    then have "offs ! (i + 1) \<le> offs ! i'" using offsets_ok_mono[OF ok, of "i + 1" i'] i by simp
    with x show False by simp
  next
    case 2
    then have "offs ! (i' + 1) \<le> offs ! i" using offsets_ok_mono[OF ok, of "i' + 1" i] i by simp
    with x show False by simp
  qed
qed

text \<open>The facts about one batch of a completed call, in terms of its arrays.\<close>

lemma batch_facts:
  fixes G :: "('p, 'f, 'n::{zero,plus,minus,linorder}) primitives" and "values" g cameraPlane frustum st j
  assumes wf: "wf_state st" and ready: "cull_ready values g"
      and grid: "grid_partition g (instanceCount values)" and bound: "instanceCount values < 2147483648"
  defines "B \<equiv> batches (cull G values cameraPlane frustum st) ! j"
  assumes j: "j < length (batches (cull G values cameraPlane frustum st))"
  shows "\<And>k. k < count B \<Longrightarrow> 0 < instanceCounts B ! k \<and> 0 \<le> baseInstances B ! k
            \<and> baseInstances B ! k + instanceCounts B ! k \<le> cellOffsets g ! cellCount g"
    "\<And>k k'. k < k' \<Longrightarrow> k' < count B \<Longrightarrow>
        baseInstances B ! k + instanceCounts B ! k \<le> baseInstances B ! k'"
    "\<And>k x. k < count B \<Longrightarrow> entry_covers B k x \<Longrightarrow>
        \<exists>i<cellCount g. selects G values g cameraPlane frustum j i \<and> cell_begin g i \<le> x \<and> x < cell_end g i"
    "\<And>i. i < cellCount g \<Longrightarrow> selects G values g cameraPlane frustum j i \<Longrightarrow> cell_begin g i < cell_end g i \<Longrightarrow>
        \<exists>k<count B. entry_contains B k (cell_begin g i) (cell_end g i)"
proof -
  let ?es = "run_entries (lod_levels values \<noteq> []) (batch_drawCount values j)
           (selects G values g cameraPlane frustum j) (cellOffsets g) (cellCount g)"
  have es: "entries (count B) B = ?es"
    unfolding B_def using cull_batches(4)[OF wf ready j] .
  have ok: "offsets_ok (cellOffsets g) (cellCount g)" using grid_offsets_ok[OF grid bound] .
  have eok: "entries_ok (toInt32 (batch_drawCount values j)) (cellOffsets g ! cellCount g) ?es"
    using run_entries_ok[OF ok le_refl] .
  have srt: "sorted_wrt (\<lambda>e1 e2. e_end e1 \<le> e_base e2) ?es"
    using run_entries_sorted[OF ok le_refl] .
  have cov: "covered ?es = cell_ranges (selects G values g cameraPlane frustum j) (cellOffsets g) (cellCount g)"
    using run_entries_covered[OF ok le_refl] .
  have con: "\<forall>i<cellCount g. selects G values g cameraPlane frustum j i \<and> cellOffsets g ! i < cellOffsets g ! (i + 1) \<longrightarrow>
           (\<exists>e\<in>set ?es. e_base e \<le> cellOffsets g ! i \<and> cellOffsets g ! (i + 1) \<le> e_end e)"
    using run_entries_contains[OF ok le_refl] .
  show "0 < instanceCounts B ! k \<and> 0 \<le> baseInstances B ! k
            \<and> baseInstances B ! k + instanceCounts B ! k \<le> cellOffsets g ! cellCount g" if k: "k < count B" for k
  proof -
    have "entries (count B) B ! k \<in> set ?es" using k es by (metis length_entries nth_mem)
    with eok have "0 < e_size (entries (count B) B ! k) \<and> 0 \<le> e_base (entries (count B) B ! k)
        \<and> e_end (entries (count B) B ! k) \<le> cellOffsets g ! cellCount g"
      by (simp add: entries_ok_def)
    then show ?thesis using k by (simp add: entries_base_end)
  qed
  show "baseInstances B ! k + instanceCounts B ! k \<le> baseInstances B ! k'" if "k < k'" "k' < count B" for k k'
  proof -
    from srt that have "e_end (entries (count B) B ! k) \<le> e_base (entries (count B) B ! k')"
      unfolding es[symmetric] by (simp add: sorted_wrt_iff_nth_less)
    then show ?thesis using that by (simp add: entries_base_end)
  qed
  show "\<exists>i<cellCount g. selects G values g cameraPlane frustum j i \<and> cell_begin g i \<le> x \<and> x < cell_end g i"
    if k: "k < count B" and c: "entry_covers B k x" for k x
  proof -
    have "entries (count B) B ! k \<in> set ?es" using k es by (metis length_entries nth_mem)
    moreover have "x \<in> {e_base (entries (count B) B ! k)..<e_end (entries (count B) B ! k)}"
      using c k by (simp add: entry_covers_def entries_base_end)
    ultimately have "x \<in> covered ?es" unfolding covered_def by blast
    then show ?thesis
      unfolding cov cell_ranges_def by (auto simp: cell_begin_def cell_end_def)
  qed
  show "\<exists>k<count B. entry_contains B k (cell_begin g i) (cell_end g i)"
    if "i < cellCount g" "selects G values g cameraPlane frustum j i" "cell_begin g i < cell_end g i" for i
  proof -
    from con that obtain e where e: "e \<in> set ?es" "e_base e \<le> cell_begin g i" "cell_end g i \<le> e_end e"
      by (auto simp: cell_begin_def cell_end_def)
    from e(1) obtain k where k: "k < count B" "e = entries (count B) B ! k"
      unfolding es[symmetric] by (auto simp: in_set_conv_nth)
    with e(2,3) show ?thesis
      by (auto simp: entry_contains_def entries_base_end)
  qed
qed

lemma cull_single_code [code]:
  "cull_single G values g cameraPlane frustum st =
     cull_single_at G values g cameraPlane frustum st
       (getMdbData (cellCount g) (Some (mdbData st)) (store st))"
  by (simp add: cull_single_def cull_single_at_def cull_single_from_def case_prod_beta)

lemma cull_lod_code [code]:
  "cull_lod G values g ref cameraPlane frustum st =
     cull_lod_at G values g ref cameraPlane frustum st
       (fold (reset_batch (cellCount g) (mdbDataList st)) [0..<length (ref_value ref)]
          (store st, []))"
  by (simp add: cull_lod_def cull_lod_at_def Let_def case_prod_beta)

lemma cull_cell_lod_code [code]:
  "cull_cell_lod G values g lods ml cameraPlane frustum i h =
     (if hasLod values
         \<and> cell_distance G g cameraPlane i + radius (cell_sphere g i) < minDistance values then h
      else if hasLod values
         \<and> cell_distance G g cameraPlane i - radius (cell_sphere g i) > maxDistance values then h
      else if \<not> f3intersectsSphere3D G frustum (cell_sphere g i) then h
      else if cell_end g i - cell_begin g i = 0 then h
      else fold (cull_level lods ml (cell_distance G g cameraPlane i) (cell_sphere g i)
                   (cell_begin g i) (cell_end g i - cell_begin g i)) [0..<length lods] h)"
  by (simp add: cull_cell_lod_def cell_distance_def cell_sphere_def cell_begin_def cell_end_def Let_def)

lemma cull_code [code]:
  "cull G values cameraPlane frustum st =
     (if drawCount values = 0 then st\<lparr>cullEnabled := False\<rparr>
      else if instanceCount values = 0 then st\<lparr>cullEnabled := False\<rparr>
      else case instanceGrid values of
             None \<Rightarrow> st\<lparr>cullEnabled := False\<rparr>
           | Some g \<Rightarrow>
               (case lodLevels values of
                  None \<Rightarrow> cull_single G values g cameraPlane frustum (st\<lparr>cullEnabled := False\<rparr>)
                | Some ref \<Rightarrow>
                    if length (ref_value ref) > 0
                    then cull_lod G values g ref cameraPlane frustum (st\<lparr>cullEnabled := False\<rparr>)
                    else cull_single G values g cameraPlane frustum (st\<lparr>cullEnabled := False\<rparr>))
               \<lparr>cullEnabled := True\<rparr>)"
  by (simp add: cull_def Let_def)

section \<open>Calls that do not cull\<close>

text \<open>
  Claim C5. A call of \<open>cull\<close> with a draw count of 0, an instance count of 0 or no
  instance grid returns a state (the model has no error result) in which the store, and
  so every batch, and the variables \<^verbatim>\<open>mdbData\<close> and \<^verbatim>\<open>mdbDataList\<close> are as
  before and culling is disabled, so that \<open>render\<close> hands no batches to the render
  item and the full draw is submitted.
\<close>

theorem cull_without_input_is_noop:
  assumes "drawCount values = 0 \<or> instanceCount values = 0 \<or> instanceGrid values = None"
  shows "store (cull G values cameraPlane frustum st) = store st
       \<and> mdbData (cull G values cameraPlane frustum st) = mdbData st
       \<and> mdbDataList (cull G values cameraPlane frustum st) = mdbDataList st
       \<and> lodLevelsVersion (cull G values cameraPlane frustum st) = lodLevelsVersion st
       \<and> uniformUpdates (cull G values cameraPlane frustum st) = uniformUpdates st
       \<and> \<not> cullEnabled (cull G values cameraPlane frustum st)
       \<and> render (cull G values cameraPlane frustum st) = None"
proof -
  from assms have "cull G values cameraPlane frustum st = st\<lparr>cullEnabled := False\<rparr>"
    by (auto simp: cull_def Let_def split: option.splits)
  then show ?thesis
    by (simp add: render_def)
qed

theorem cull_without_input_is_noop_witness:
  "instanceCount (ex_values\<lparr>instanceCount := 0\<rparr>) = 0
   \<and> store (cull ex_G (ex_values\<lparr>instanceCount := 0\<rparr>) () (0, 10) createRenderable)
       = store createRenderable
   \<and> \<not> cullEnabled (cull ex_G (ex_values\<lparr>instanceCount := 0\<rparr>) () (0, 10) createRenderable)
   \<and> render (cull ex_G (ex_values\<lparr>instanceCount := 0\<rparr>) () (0, 10) createRenderable) = None"
  using cull_without_input_is_noop
          [of "ex_values\<lparr>instanceCount := 0\<rparr>" ex_G "()" "(0, 10)" createRenderable]
  by simp

text \<open>
  Claim C4, amended. After a call of \<open>cull\<close> that completes its pass (the renderable
  has a draw count, an instance count and a grid), on a grid whose offsets are
  non-decreasing and partition \<open>[0, instanceCount)\<close> with \<open>instanceCount\<close> below
  \<open>2^31\<close>, there is one batch without LOD levels and one per level otherwise, and
  every batch has, among its entries \<open>[0, count)\<close>, only positive instance counts,
  strictly increasing base instances and pairwise disjoint instance ranges. The bound is
  needed: the instance counts are kept in an \<^verbatim>\<open>Int32Array\<close>, and the count of a
  merged entry that reaches \<open>2^31\<close> wraps to a negative number.
\<close>

theorem batch_entries_disjoint_increasing:
  fixes G :: "('p, 'f, 'n::{zero,plus,minus,linorder}) primitives"
  assumes "wf_state st" and "cull_ready values g"
      and "grid_partition g (instanceCount values)" and "instanceCount values < 2147483648"
      and "b \<in> set (batches (cull G values cameraPlane frustum st))"
  shows "(\<forall>k<count b. 0 < instanceCounts b ! k)
       \<and> (\<forall>k<count b. \<forall>k'<count b. k < k' \<longrightarrow> baseInstances b ! k < baseInstances b ! k')
       \<and> (\<forall>k<count b. \<forall>k'<count b. k \<noteq> k' \<longrightarrow> \<not> (\<exists>x. entry_covers b k x \<and> entry_covers b k' x))
       \<and> length (batches (cull G values cameraPlane frustum st))
           = (if lod_levels values = [] then 1 else length (lod_levels values))"
proof -
  have len: "length (batches (cull G values cameraPlane frustum st))
           = (if lod_levels values = [] then 1 else length (lod_levels values))"
    using cull_batches(3)[OF assms(1,2)] .
  from assms(5) obtain j where j: "j < length (batches (cull G values cameraPlane frustum st))"
      and b: "b = batches (cull G values cameraPlane frustum st) ! j"
    by (auto simp: in_set_conv_nth)
  note F = batch_facts(1,2)[OF assms(1-4) j, folded b]
  have pos: "0 < instanceCounts b ! k" if "k < count b" for k
    using F(1)[OF that] by simp
  have ord: "baseInstances b ! k + instanceCounts b ! k \<le> baseInstances b ! k'"
    if "k < k'" "k' < count b" for k k'
    using F(2)[OF that] .
  have inc: "baseInstances b ! k < baseInstances b ! k'" if "k < k'" "k' < count b" for k k'
    using ord[OF that] pos[of k] that by simp
  have dis: "\<not> (entry_covers b k x \<and> entry_covers b k' x)" if "k < k'" "k' < count b" for k k' x
    using ord[OF that] by (auto simp: entry_covers_def)
  have "\<not> (\<exists>x. entry_covers b k x \<and> entry_covers b k' x)"
    if "k < count b" "k' < count b" "k \<noteq> k'" for k k'
  proof (cases "k < k'")
    case True
    then show ?thesis using dis[OF True that(2)] by blast
  next
    case False
    with that(3) have "k' < k" by simp
    then show ?thesis using dis[OF _ that(1)] by blast
  qed
  with pos inc len show ?thesis by blast
qed

theorem batch_entries_disjoint_increasing_witness:
  "wf_state (createRenderable :: int Renderable) \<and> cull_ready ex_values3 ex_grid3
   \<and> grid_partition ex_grid3 (instanceCount ex_values3) \<and> instanceCount ex_values3 < 2147483648
   \<and> batches (cull ex_G ex_values3 () (0, 10) createRenderable) ! 0
         \<in> set (batches (cull ex_G ex_values3 () (0, 10) createRenderable))
   \<and> length (batches (cull ex_G ex_values3 () (0, 10) createRenderable)) = 1
   \<and> count (batches (cull ex_G ex_values3 () (0, 10) createRenderable) ! 0) = 2
   \<and> 0 < instanceCounts (batches (cull ex_G ex_values3 () (0, 10) createRenderable) ! 0) ! 0
   \<and> 0 < instanceCounts (batches (cull ex_G ex_values3 () (0, 10) createRenderable) ! 0) ! 1
   \<and> baseInstances (batches (cull ex_G ex_values3 () (0, 10) createRenderable) ! 0) ! 0
       < baseInstances (batches (cull ex_G ex_values3 () (0, 10) createRenderable) ! 0) ! 1
   \<and> \<not> (\<exists>x. entry_covers (batches (cull ex_G ex_values3 () (0, 10) createRenderable) ! 0) 0 x
               \<and> entry_covers (batches (cull ex_G ex_values3 () (0, 10) createRenderable) ! 0) 1 x)"
proof -
  have a: "wf_state (createRenderable :: int Renderable)" by code_simp
  have b: "cull_ready ex_values3 ex_grid3" by code_simp
  have c: "grid_partition ex_grid3 (instanceCount ex_values3)" by code_simp
  have d: "instanceCount ex_values3 < 2147483648" by code_simp
  have e: "batches (cull ex_G ex_values3 () (0, 10) createRenderable) ! 0
             \<in> set (batches (cull ex_G ex_values3 () (0, 10) createRenderable))"
    by code_simp
  have f: "count (batches (cull ex_G ex_values3 () (0, 10) createRenderable) ! 0) = 2" by code_simp
  note t = batch_entries_disjoint_increasing[OF a b c d e, unfolded f]
  have "0 < instanceCounts (batches (cull ex_G ex_values3 () (0, 10) createRenderable) ! 0) ! 0"
       "0 < instanceCounts (batches (cull ex_G ex_values3 () (0, 10) createRenderable) ! 0) ! 1"
    using t by simp_all
  moreover have "baseInstances (batches (cull ex_G ex_values3 () (0, 10) createRenderable) ! 0) ! 0
       < baseInstances (batches (cull ex_G ex_values3 () (0, 10) createRenderable) ! 0) ! 1"
    using t by simp
  moreover have "\<not> (\<exists>x. entry_covers (batches (cull ex_G ex_values3 () (0, 10) createRenderable) ! 0) 0 x
               \<and> entry_covers (batches (cull ex_G ex_values3 () (0, 10) createRenderable) ! 0) 1 x)"
  proof -
    from t have "\<forall>k<2. \<forall>k'<2. k \<noteq> k' \<longrightarrow>
        \<not> (\<exists>x. entry_covers (batches (cull ex_G ex_values3 () (0, 10) createRenderable) ! 0) k x
               \<and> entry_covers (batches (cull ex_G ex_values3 () (0, 10) createRenderable) ! 0) k' x)"
      by blast
    then have "(0::nat) < 2 \<longrightarrow> (1::nat) < 2 \<longrightarrow> (0::nat) \<noteq> 1 \<longrightarrow>
        \<not> (\<exists>x. entry_covers (batches (cull ex_G ex_values3 () (0, 10) createRenderable) ! 0) 0 x
               \<and> entry_covers (batches (cull ex_G ex_values3 () (0, 10) createRenderable) ! 0) 1 x)"
      by blast
    then show ?thesis by simp
  qed
  moreover have "length (batches (cull ex_G ex_values3 () (0, 10) createRenderable)) = 1"
  proof -
    have "lod_levels ex_values3 = []" by code_simp
    with t show ?thesis by simp
  qed
  ultimately show ?thesis using a b c d e f by blast
qed

theorem batch_count_wraps_beyond_int32:
  "cull_ready ex_values_big ex_grid_big
   \<and> grid_partition ex_grid_big (instanceCount ex_values_big)
   \<and> instanceCount ex_values_big = 4000000000
   \<and> length (batches (cull ex_G ex_values_big () (0, 100) createRenderable)) = 1
   \<and> count (batches (cull ex_G ex_values_big () (0, 100) createRenderable) ! 0) = 1
   \<and> baseInstances (batches (cull ex_G ex_values_big () (0, 100) createRenderable) ! 0) ! 0 = 0
   \<and> instanceCounts (batches (cull ex_G ex_values_big () (0, 100) createRenderable) ! 0) ! 0
       = - 294967296"
  by code_simp



text \<open>
  Claim C9, amended. The distance tests are inclusive at both ends. On a grid that
  satisfies the partition invariant with an instance count below \<open>2^31\<close>, a non-empty
  cell that passes the frustum test lies in an entry of batch \<open>j\<close> (the only batch
  when there are no levels, the batch of level \<open>j\<close> otherwise) as soon as its sphere
  reaches the overall range when there is one (\<open>minDistance \<le> d + radius\<close> and
  \<open>d - radius \<le> maxDistance\<close>) and the range of level \<open>j\<close> when there are levels,
  and equality is enough in each of these comparisons. Beyond \<open>2^31\<close> instances the
  cell is not rejected either, but the count of its entry wraps and the entry no longer
  contains the cell's range.
\<close>

theorem distance_test_inclusive:
  fixes G :: "('p, 'f, 'n::{zero,plus,minus,linorder}) primitives"
  assumes "wf_state st" and "cull_ready values g"
      and "grid_partition g (instanceCount values)" and "instanceCount values < 2147483648"
      and "j < (if lod_levels values = [] then 1 else length (lod_levels values))"
      and "i < cellCount g" and "in_frustum G g frustum i" and "cell_begin g i < cell_end g i"
      and "hasLod values \<longrightarrow>
             minDistance values \<le> cell_distance G g cameraPlane i + radius (cell_sphere g i)
             \<and> cell_distance G g cameraPlane i - radius (cell_sphere g i) \<le> maxDistance values"
      and "lod_levels values \<noteq> [] \<longrightarrow>
             lvMinDistance (lod_levels values ! j)
               \<le> cell_distance G g cameraPlane i + radius (cell_sphere g i)
             \<and> cell_distance G g cameraPlane i - radius (cell_sphere g i)
               \<le> lvMaxDistance (lod_levels values ! j)"
  shows "j < length (batches (cull G values cameraPlane frustum st))
       \<and> (\<exists>k<count (batches (cull G values cameraPlane frustum st) ! j).
             entry_contains (batches (cull G values cameraPlane frustum st) ! j) k
               (cell_begin g i) (cell_end g i))"
proof -
  have j: "j < length (batches (cull G values cameraPlane frustum st))"
    using cull_batches(3)[OF assms(1,2), of G cameraPlane frustum] assms(5) by simp
  have "selects G values g cameraPlane frustum j i"
    using assms(7,9,10)
    by (simp add: selects_def in_overall_range_def in_level_range_def within_def)
  then show ?thesis
    using batch_facts(4)[OF assms(1-4) j assms(6) _ assms(8)] j by simp
qed

theorem distance_test_inclusive_witness:
  "wf_state (createRenderable :: int Renderable) \<and> cull_ready ex_values_touch ex_grid3
   \<and> grid_partition ex_grid3 (instanceCount ex_values_touch)
   \<and> instanceCount ex_values_touch < 2147483648
   \<and> length (lod_levels ex_values_touch) = 1
   \<and> 1 < cellCount ex_grid3 \<and> in_frustum ex_G ex_grid3 (0, 100) 1
   \<and> cell_begin ex_grid3 1 < cell_end ex_grid3 1
   \<and> hasLod ex_values_touch
   \<and> minDistance ex_values_touch = cell_distance ex_G ex_grid3 () 1 + radius (cell_sphere ex_grid3 1)
   \<and> cell_distance ex_G ex_grid3 () 1 - radius (cell_sphere ex_grid3 1)
         = lvMaxDistance (lod_levels ex_values_touch ! 0)
   \<and> 0 < length (batches (cull ex_G ex_values_touch () (0, 100) createRenderable))
   \<and> (\<exists>k<count (batches (cull ex_G ex_values_touch () (0, 100) createRenderable) ! 0).
         entry_contains (batches (cull ex_G ex_values_touch () (0, 100) createRenderable) ! 0) k
           (cell_begin ex_grid3 1) (cell_end ex_grid3 1))
   \<and> cull_ready (ex_values3\<lparr>uLod := (0, 49, 0, 0)\<rparr>) ex_grid3
   \<and> lod_levels (ex_values3\<lparr>uLod := (0, 49, 0, 0)\<rparr>) = []
   \<and> hasLod (ex_values3\<lparr>uLod := (0, 49, 0, 0)\<rparr>)
   \<and> cell_distance ex_G ex_grid3 () 1 - radius (cell_sphere ex_grid3 1)
         = maxDistance (ex_values3\<lparr>uLod := (0, 49, 0, 0)\<rparr>)
   \<and> 0 < length (batches (cull ex_G (ex_values3\<lparr>uLod := (0, 49, 0, 0)\<rparr>) () (0, 100) createRenderable))
   \<and> (\<exists>k<count (batches (cull ex_G (ex_values3\<lparr>uLod := (0, 49, 0, 0)\<rparr>) () (0, 100) createRenderable) ! 0).
         entry_contains (batches (cull ex_G (ex_values3\<lparr>uLod := (0, 49, 0, 0)\<rparr>) () (0, 100) createRenderable) ! 0) k
           (cell_begin ex_grid3 1) (cell_end ex_grid3 1))"
proof -
  have a: "wf_state (createRenderable :: int Renderable)" by code_simp
  have b: "cull_ready ex_values_touch ex_grid3" by code_simp
  have c: "grid_partition ex_grid3 (instanceCount ex_values_touch)" by code_simp
  have d: "instanceCount ex_values_touch < 2147483648" by code_simp
  have e0: "length (lod_levels ex_values_touch) = 1" by code_simp
  have e: "0 < (if lod_levels ex_values_touch = [] then 1 else length (lod_levels ex_values_touch))"
    by code_simp
  have f: "1 < cellCount ex_grid3" by code_simp
  have g: "in_frustum ex_G ex_grid3 (0, 100) 1" by code_simp
  have h: "cell_begin ex_grid3 1 < cell_end ex_grid3 1" by code_simp
  have i: "hasLod ex_values_touch \<longrightarrow>
             minDistance ex_values_touch
               \<le> cell_distance ex_G ex_grid3 () 1 + radius (cell_sphere ex_grid3 1)
             \<and> cell_distance ex_G ex_grid3 () 1 - radius (cell_sphere ex_grid3 1)
               \<le> maxDistance ex_values_touch"
    by code_simp
  have j: "lod_levels ex_values_touch \<noteq> [] \<longrightarrow>
             lvMinDistance (lod_levels ex_values_touch ! 0)
               \<le> cell_distance ex_G ex_grid3 () 1 + radius (cell_sphere ex_grid3 1)
             \<and> cell_distance ex_G ex_grid3 () 1 - radius (cell_sphere ex_grid3 1)
               \<le> lvMaxDistance (lod_levels ex_values_touch ! 0)"
    by code_simp
  have k: "hasLod ex_values_touch" by code_simp
  have l: "minDistance ex_values_touch
             = cell_distance ex_G ex_grid3 () 1 + radius (cell_sphere ex_grid3 1)"
    by code_simp
  have m: "cell_distance ex_G ex_grid3 () 1 - radius (cell_sphere ex_grid3 1)
             = lvMaxDistance (lod_levels ex_values_touch ! 0)"
    by code_simp
  note levels = distance_test_inclusive[OF a b c d e f g h i j]
  have b': "cull_ready (ex_values3\<lparr>uLod := (0, 49, 0, 0)\<rparr>) ex_grid3" by code_simp
  have c': "grid_partition ex_grid3 (instanceCount (ex_values3\<lparr>uLod := (0, 49, 0, 0)\<rparr>))" by code_simp
  have d': "instanceCount (ex_values3\<lparr>uLod := (0, 49, 0, 0)\<rparr>) < 2147483648" by code_simp
  have e0': "lod_levels (ex_values3\<lparr>uLod := (0, 49, 0, 0)\<rparr>) = []" by code_simp
  have e': "0 < (if lod_levels (ex_values3\<lparr>uLod := (0, 49, 0, 0)\<rparr>) = [] then 1 else length (lod_levels (ex_values3\<lparr>uLod := (0, 49, 0, 0)\<rparr>)))"
    by code_simp
  have i': "hasLod (ex_values3\<lparr>uLod := (0, 49, 0, 0)\<rparr>) \<longrightarrow>
             minDistance (ex_values3\<lparr>uLod := (0, 49, 0, 0)\<rparr>)
               \<le> cell_distance ex_G ex_grid3 () 1 + radius (cell_sphere ex_grid3 1)
             \<and> cell_distance ex_G ex_grid3 () 1 - radius (cell_sphere ex_grid3 1)
               \<le> maxDistance (ex_values3\<lparr>uLod := (0, 49, 0, 0)\<rparr>)"
    by code_simp
  have j': "lod_levels (ex_values3\<lparr>uLod := (0, 49, 0, 0)\<rparr>) \<noteq> [] \<longrightarrow>
             lvMinDistance (lod_levels (ex_values3\<lparr>uLod := (0, 49, 0, 0)\<rparr>) ! 0)
               \<le> cell_distance ex_G ex_grid3 () 1 + radius (cell_sphere ex_grid3 1)
             \<and> cell_distance ex_G ex_grid3 () 1 - radius (cell_sphere ex_grid3 1)
               \<le> lvMaxDistance (lod_levels (ex_values3\<lparr>uLod := (0, 49, 0, 0)\<rparr>) ! 0)"
    using e0' by simp
  have k': "hasLod (ex_values3\<lparr>uLod := (0, 49, 0, 0)\<rparr>)" by code_simp
  have m': "cell_distance ex_G ex_grid3 () 1 - radius (cell_sphere ex_grid3 1)
             = maxDistance (ex_values3\<lparr>uLod := (0, 49, 0, 0)\<rparr>)"
    by code_simp
  note single = distance_test_inclusive[OF a b' c' d' e' f g h i' j']
  from levels single a b c d e0 f g h k l m b' e0' k' m'
  show ?thesis by blast
qed

theorem touching_cell_count_wraps_beyond_int32:
  "cull_ready (ex_values_big\<lparr>uLod := (51, 100, 0, 0)\<rparr>) ex_grid_big
   \<and> grid_partition ex_grid_big (instanceCount (ex_values_big\<lparr>uLod := (51, 100, 0, 0)\<rparr>))
   \<and> instanceCount (ex_values_big\<lparr>uLod := (51, 100, 0, 0)\<rparr>) = 4000000000
   \<and> lod_levels (ex_values_big\<lparr>uLod := (51, 100, 0, 0)\<rparr>) = [] \<and> hasLod (ex_values_big\<lparr>uLod := (51, 100, 0, 0)\<rparr>)
   \<and> in_frustum ex_G ex_grid_big (0, 100) 0
   \<and> cell_begin ex_grid_big 0 = 0 \<and> cell_end ex_grid_big 0 = 2000000000
   \<and> minDistance (ex_values_big\<lparr>uLod := (51, 100, 0, 0)\<rparr>)
       = cell_distance ex_G ex_grid_big () 0 + radius (cell_sphere ex_grid_big 0)
   \<and> cell_distance ex_G ex_grid_big () 0 - radius (cell_sphere ex_grid_big 0)
       \<le> maxDistance (ex_values_big\<lparr>uLod := (51, 100, 0, 0)\<rparr>)
   \<and> length (batches (cull ex_G (ex_values_big\<lparr>uLod := (51, 100, 0, 0)\<rparr>) () (0, 100) createRenderable)) = 1
   \<and> count (batches (cull ex_G (ex_values_big\<lparr>uLod := (51, 100, 0, 0)\<rparr>) () (0, 100) createRenderable) ! 0) = 1
   \<and> instanceCounts (batches (cull ex_G (ex_values_big\<lparr>uLod := (51, 100, 0, 0)\<rparr>) () (0, 100) createRenderable) ! 0) ! 0 = - 294967296
   \<and> \<not> entry_contains (batches (cull ex_G (ex_values_big\<lparr>uLod := (51, 100, 0, 0)\<rparr>) () (0, 100) createRenderable) ! 0) 0 0 2000000000"
  by code_simp

lemma contains_unique:
  fixes G :: "('p, 'f, 'n::{zero,plus,minus,linorder}) primitives"
  assumes "wf_state st" and "cull_ready values g"
      and "grid_partition g (instanceCount values)" and "instanceCount values < 2147483648"
      and j: "j < length (batches (cull G values cameraPlane frustum st))"
      and lt: "lo < hi"
      and k: "k < count (batches (cull G values cameraPlane frustum st) ! j)"
             "entry_contains (batches (cull G values cameraPlane frustum st) ! j) k lo hi"
      and k': "k' < count (batches (cull G values cameraPlane frustum st) ! j)"
             "entry_contains (batches (cull G values cameraPlane frustum st) ! j) k' lo hi"
  shows "k = k'"
proof (rule ccontr)
  assume ne: "k \<noteq> k'"
  let ?B = "batches (cull G values cameraPlane frustum st) ! j"
  note F = batch_facts(2)[OF assms(1-4) j]
  from ne consider "k < k'" | "k' < k" by linarith
  then show False
  proof cases
    case 1
    from F[OF 1 k'(1)] k(2) k'(2) lt show False by (simp add: entry_contains_def)
  next
    case 2
    from F[OF 2 k(1)] k(2) k'(2) lt show False by (simp add: entry_contains_def)
  qed
qed

text \<open>
  Claim C3, amended. With LOD levels there is one batch per level, and on a grid that
  satisfies the partition invariant with an instance count below \<open>2^31\<close>, a non-empty
  cell that passes the frustum test and the overall distance test of \<^verbatim>\<open>uLod\<close>
  (made when its min or max distance is not 0) lies, for every level \<open>j\<close> whose range
  its sphere meets, in exactly one entry of the batch of level \<open>j\<close>. The levels are
  tested independently, so a cell can be in the batches of several levels. Both
  conditions are needed: a cell outside the overall range is in no batch, and beyond
  \<open>2^31\<close> instances the count of an entry wraps in the \<^verbatim>\<open>Int32Array\<close>.
\<close>

theorem lod_cell_in_one_entry_per_level:
  fixes G :: "('p, 'f, 'n::{zero,plus,minus,linorder}) primitives"
  assumes "wf_state st" and "cull_ready values g"
      and "grid_partition g (instanceCount values)" and "instanceCount values < 2147483648"
      and "lod_levels values \<noteq> []" and "j < length (lod_levels values)"
      and "i < cellCount g" and "in_frustum G g frustum i" and "cell_begin g i < cell_end g i"
      and "in_overall_range G values g cameraPlane i"
      and "in_level_range G g (lod_levels values) cameraPlane j i"
  shows "length (batches (cull G values cameraPlane frustum st)) = length (lod_levels values)
       \<and> (\<exists>!k. k < count (batches (cull G values cameraPlane frustum st) ! j)
              \<and> entry_contains (batches (cull G values cameraPlane frustum st) ! j) k
                   (cell_begin g i) (cell_end g i))"
proof -
  have len: "length (batches (cull G values cameraPlane frustum st)) = length (lod_levels values)"
    using cull_batches(3)[OF assms(1,2), of G cameraPlane frustum] assms(5) by simp
  then have j: "j < length (batches (cull G values cameraPlane frustum st))" using assms(6) by simp
  have "selects G values g cameraPlane frustum j i"
    using assms(8,10,11) by (simp add: selects_def)
  then obtain k where k: "k < count (batches (cull G values cameraPlane frustum st) ! j)"
     "entry_contains (batches (cull G values cameraPlane frustum st) ! j) k (cell_begin g i) (cell_end g i)"
    using batch_facts(4)[OF assms(1-4) j assms(7) _ assms(9)] by blast
  show ?thesis
    using len k contains_unique[OF assms(1-4) j assms(9)] by blast
qed

theorem lod_cell_in_one_entry_per_level_witness:
  "wf_state (createRenderable :: int Renderable) \<and> cull_ready ex_values_lod ex_grid3
   \<and> grid_partition ex_grid3 (instanceCount ex_values_lod)
   \<and> instanceCount ex_values_lod < 2147483648
   \<and> lod_levels ex_values_lod \<noteq> [] \<and> 1 < length (lod_levels ex_values_lod)
   \<and> 1 < cellCount ex_grid3 \<and> in_frustum ex_G ex_grid3 (0, 100) 1
   \<and> cell_begin ex_grid3 1 < cell_end ex_grid3 1
   \<and> in_overall_range ex_G ex_values_lod ex_grid3 () 1
   \<and> in_level_range ex_G ex_grid3 (lod_levels ex_values_lod) () 0 1
   \<and> in_level_range ex_G ex_grid3 (lod_levels ex_values_lod) () 1 1
   \<and> (\<exists>!k. k < count (batches (cull ex_G ex_values_lod () (0, 100) createRenderable) ! 1)
          \<and> entry_contains (batches (cull ex_G ex_values_lod () (0, 100) createRenderable) ! 1) k
               (cell_begin ex_grid3 1) (cell_end ex_grid3 1))"
proof -
  have a: "wf_state (createRenderable :: int Renderable)" by code_simp
  have b: "cull_ready ex_values_lod ex_grid3" by code_simp
  have c: "grid_partition ex_grid3 (instanceCount ex_values_lod)" by code_simp
  have d: "instanceCount ex_values_lod < 2147483648" by code_simp
  have e: "lod_levels ex_values_lod \<noteq> []" by code_simp
  have f: "1 < length (lod_levels ex_values_lod)" by code_simp
  have g: "1 < cellCount ex_grid3" by code_simp
  have h: "in_frustum ex_G ex_grid3 (0, 100) 1" by code_simp
  have i: "cell_begin ex_grid3 1 < cell_end ex_grid3 1" by code_simp
  have j: "in_overall_range ex_G ex_values_lod ex_grid3 () 1" by code_simp
  have k: "in_level_range ex_G ex_grid3 (lod_levels ex_values_lod) () 1 1" by code_simp
  have l: "in_level_range ex_G ex_grid3 (lod_levels ex_values_lod) () 0 1" by code_simp
  from lod_cell_in_one_entry_per_level[OF a b c d e f g h i j k] a b c d e f g h i j k l
  show ?thesis by blast
qed

theorem lod_cell_missing_from_batch:
  "lod_levels (ex_values_lod\<lparr>uLod := (10, 20, 0, 0)\<rparr>) \<noteq> []
   \<and> in_frustum ex_G ex_grid3 (0, 100) 2
   \<and> cell_begin ex_grid3 2 < cell_end ex_grid3 2
   \<and> in_level_range ex_G ex_grid3 (lod_levels (ex_values_lod\<lparr>uLod := (10, 20, 0, 0)\<rparr>)) () 0 2
   \<and> count (batches (cull ex_G (ex_values_lod\<lparr>uLod := (10, 20, 0, 0)\<rparr>) () (0, 100)
                      createRenderable) ! 0) = 0
   \<and> lod_levels (ex_values_big\<lparr>lodLevels := Some ex_lods\<rparr>) \<noteq> []
   \<and> grid_partition ex_grid_big (instanceCount (ex_values_big\<lparr>lodLevels := Some ex_lods\<rparr>))
   \<and> in_frustum ex_G ex_grid_big (0, 100) 0
   \<and> in_overall_range ex_G (ex_values_big\<lparr>lodLevels := Some ex_lods\<rparr>) ex_grid_big () 0
   \<and> in_level_range ex_G ex_grid_big (lod_levels (ex_values_big\<lparr>lodLevels := Some ex_lods\<rparr>)) () 0 0
   \<and> cell_begin ex_grid_big 0 = 0 \<and> cell_end ex_grid_big 0 = 2000000000
   \<and> count (batches (cull ex_G (ex_values_big\<lparr>lodLevels := Some ex_lods\<rparr>) () (0, 100) createRenderable) ! 0) = 1
   \<and> instanceCounts (batches (cull ex_G (ex_values_big\<lparr>lodLevels := Some ex_lods\<rparr>) () (0, 100) createRenderable) ! 0) ! 0 = - 294967296
   \<and> \<not> entry_contains (batches (cull ex_G (ex_values_big\<lparr>lodLevels := Some ex_lods\<rparr>) () (0, 100) createRenderable) ! 0) 0 0 2000000000"
  by code_simp

text \<open>
  Claim C6, amended. Without LOD levels (the table absent or empty) there is a single
  batch, and on a grid that satisfies the partition invariant with an instance count
  below \<open>2^31\<close> a non-empty cell lies in one of its entries exactly when it passes
  the frustum test and, when the min or the max distance of \<^verbatim>\<open>uLod\<close> is not 0,
  the overall distance test as well. Only when both are 0 is the frustum the only test.
  Beyond \<open>2^31\<close> instances the count of an entry wraps in the \<^verbatim>\<open>Int32Array\<close>
  and a cell that passes the tests need not lie in an entry.
\<close>

theorem no_levels_cell_drawn_iff:
  fixes G :: "('p, 'f, 'n::{zero,plus,minus,linorder}) primitives"
  assumes "wf_state st" and "cull_ready values g"
      and "grid_partition g (instanceCount values)" and "instanceCount values < 2147483648"
      and "lod_levels values = []"
      and "i < cellCount g" and "cell_begin g i < cell_end g i"
  shows "length (batches (cull G values cameraPlane frustum st)) = 1
       \<and> ((\<exists>k<count (batches (cull G values cameraPlane frustum st) ! 0).
              entry_contains (batches (cull G values cameraPlane frustum st) ! 0) k
                (cell_begin g i) (cell_end g i))
            \<longleftrightarrow> in_frustum G g frustum i
                \<and> (hasLod values \<longrightarrow>
                     minDistance values \<le> cell_distance G g cameraPlane i + radius (cell_sphere g i)
                     \<and> cell_distance G g cameraPlane i - radius (cell_sphere g i) \<le> maxDistance values))"
proof -
  let ?B = "batches (cull G values cameraPlane frustum st) ! 0"
  have len: "length (batches (cull G values cameraPlane frustum st)) = 1"
    using cull_batches(3)[OF assms(1,2), of G cameraPlane frustum] assms(5) by simp
  then have j: "0 < length (batches (cull G values cameraPlane frustum st))" by simp
  have sel: "selects G values g cameraPlane frustum 0 i \<longleftrightarrow>
      in_frustum G g frustum i
                \<and> (hasLod values \<longrightarrow>
                     minDistance values \<le> cell_distance G g cameraPlane i + radius (cell_sphere g i)
                     \<and> cell_distance G g cameraPlane i - radius (cell_sphere g i) \<le> maxDistance values)"
    using assms(5) by (auto simp: selects_def in_overall_range_def within_def)
  have "selects G values g cameraPlane frustum 0 i"
    if k: "k < count ?B" "entry_contains ?B k (cell_begin g i) (cell_end g i)" for k
  proof -
    have "entry_covers ?B k (cell_begin g i)"
      using k(2) assms(7) by (simp add: entry_contains_def entry_covers_def)
    from batch_facts(3)[OF assms(1-4) j k(1) this]
    obtain i' where i': "i' < cellCount g" "selects G values g cameraPlane frustum 0 i'"
      "cell_begin g i' \<le> cell_begin g i" "cell_begin g i < cell_end g i'"
      by blast
    have "i = i'"
      using ranges_disjoint[OF grid_offsets_ok[OF assms(3,4)] assms(6) i'(1), of "cell_begin g i"]
        assms(7) i'(3,4)
      by (simp add: cell_begin_def cell_end_def)
    with i'(2) show ?thesis by simp
  qed
  moreover have "\<exists>k<count ?B. entry_contains ?B k (cell_begin g i) (cell_end g i)"
    if "selects G values g cameraPlane frustum 0 i"
    using batch_facts(4)[OF assms(1-4) j assms(6) that assms(7)] .
  ultimately show ?thesis using len sel by blast
qed

theorem no_levels_cell_drawn_iff_witness:
  "wf_state (createRenderable :: int Renderable) \<and> cull_ready ex_values3 ex_grid3
   \<and> grid_partition ex_grid3 (instanceCount ex_values3) \<and> instanceCount ex_values3 < 2147483648
   \<and> lod_levels ex_values3 = [] \<and> 1 < cellCount ex_grid3
   \<and> cell_begin ex_grid3 1 < cell_end ex_grid3 1
   \<and> \<not> hasLod ex_values3 \<and> in_frustum ex_G ex_grid3 (0, 100) 1
   \<and> (\<exists>k<count (batches (cull ex_G ex_values3 () (0, 100) createRenderable) ! 0).
         entry_contains (batches (cull ex_G ex_values3 () (0, 100) createRenderable) ! 0) k
           (cell_begin ex_grid3 1) (cell_end ex_grid3 1))"
proof -
  have a: "wf_state (createRenderable :: int Renderable)" by code_simp
  have b: "cull_ready ex_values3 ex_grid3" by code_simp
  have c: "grid_partition ex_grid3 (instanceCount ex_values3)" by code_simp
  have d: "instanceCount ex_values3 < 2147483648" by code_simp
  have e: "lod_levels ex_values3 = []" by code_simp
  have f: "1 < cellCount ex_grid3" by code_simp
  have g: "cell_begin ex_grid3 1 < cell_end ex_grid3 1" by code_simp
  have h: "\<not> hasLod ex_values3" by code_simp
  have i: "in_frustum ex_G ex_grid3 (0, 100) 1" by code_simp
  from no_levels_cell_drawn_iff[OF a b c d e f g, of ex_G "()" "(0, 100)"] a b c d e f g h i
  show ?thesis by blast
qed

theorem no_levels_cell_missing_from_batch:
  "lodLevels (ex_values3\<lparr>uLod := (10, 20, 0, 0)\<rparr>) = None
   \<and> in_frustum ex_G ex_grid3 (0, 100) 2
   \<and> cell_begin ex_grid3 2 < cell_end ex_grid3 2
   \<and> count (batches (cull ex_G (ex_values3\<lparr>uLod := (10, 20, 0, 0)\<rparr>) () (0, 100)
                      createRenderable) ! 0) = 0
   \<and> count (batches (cull ex_G ex_values3 () (0, 100) createRenderable) ! 0) = 1
   \<and> lodLevels ex_values_big = None \<and> \<not> hasLod ex_values_big
   \<and> grid_partition ex_grid_big (instanceCount ex_values_big)
   \<and> in_frustum ex_G ex_grid_big (0, 100) 0
   \<and> cell_begin ex_grid_big 0 = 0 \<and> cell_end ex_grid_big 0 = 2000000000
   \<and> count (batches (cull ex_G ex_values_big () (0, 100) createRenderable) ! 0) = 1
   \<and> instanceCounts (batches (cull ex_G ex_values_big () (0, 100) createRenderable) ! 0) ! 0 = - 294967296
   \<and> \<not> entry_contains (batches (cull ex_G ex_values_big () (0, 100) createRenderable) ! 0) 0 0 2000000000"
  by code_simp

lemma cull_single_capacities:
  fixes G :: "('p, 'f, 'n::{zero,plus,minus,linorder}) primitives" and vals g cameraPlane frustum st
  assumes wf: "wf_state st"
  defines "st' \<equiv> cull_single G vals g cameraPlane frustum st"
  shows "length (store st) \<le> length (store st')"
    "\<And>r. r < length (store st') \<Longrightarrow>
       capacity (store st' ! r) = (if r < length (store st) then capacity (store st ! r) else cellCount g)"
proof -
  obtain r h where gm: "getMdbData (cellCount g) (Some (mdbData st)) (store st) = (r, h)"
    by (cases "getMdbData (cellCount g) (Some (mdbData st)) (store st)")
  have rh: "r < length h" "cellCount g \<le> capacity (h ! r)" "\<forall>md\<in>set h. same_capacity md"
      "length (store st) \<le> length h"
      "\<And>q. q < length h \<Longrightarrow> capacity (h ! q) = (if q < length (store st) then capacity (store st ! q) else cellCount g)"
    using gm wf
    by (auto simp: getMdbData_def wf_state_def capacity_def nth_append newMdbData_def
          same_capacity_def split: if_splits)
  have sc: "same_capacity (h ! r)" using rh(1,3) by simp
  obtain md k where f: "fold (cull_cell G vals g cameraPlane frustum) [0..<cellCount g] (h ! r, 0) = (md, k)"
    by (cases "fold (cull_cell G vals g cameraPlane frustum) [0..<cellCount g] (h ! r, 0)")
  have st': "st' = st\<lparr>store := h[r := md\<lparr>count := k, uniforms := []\<rparr>], mdbData := r, mdbDataList := [r]\<rparr>"
    by (simp add: st'_def cull_single_def gm f)
  from fold_cull_cell[OF sc, where n = "cellCount g" and G = G and g = g
         and cameraPlane = cameraPlane and frustum = frustum and vals = vals] rh(2) f
  have F: "same_rest k (h ! r) md"
    by (simp_all add: capacity_def)
  have cap: "capacity (md\<lparr>count := k, uniforms := []\<rparr>) = capacity (h ! r)"
    using F by (simp add: capacity_def same_rest_def)
  show "length (store st) \<le> length (store st')" using rh(4) by (simp add: st')
  show "capacity (store st' ! q) = (if q < length (store st) then capacity (store st ! q) else cellCount g)"
    if "q < length (store st')" for q
  proof (cases "q = r")
    case True
    then show ?thesis using rh(1) rh(5)[of r] cap by (simp add: st')
  next
    case False
    then show ?thesis using that rh(5)[of q] by (simp add: st')
  qed
qed

lemma fold_level_cell_capacity:
  assumes "same_capacity l" "n \<le> length (instanceCounts l)" "count l = 0"
  shows "capacity (fold (level_cell G values g lods cameraPlane frustum j) [0..<n] l) = capacity l"
  using fold_level_cell[OF assms, of G "values" g lods cameraPlane frustum j]
  by (simp add: same_rest_def capacity_def)

lemma cull_lod_capacities:
  fixes G :: "('p, 'f, 'n::{zero,plus,minus,linorder}) primitives" and vals g ref cameraPlane frustum st
  assumes wf: "wf_state st"
  defines "st' \<equiv> cull_lod G vals g ref cameraPlane frustum st"
  shows "length (store st) \<le> length (store st')"
    "\<And>r. r < length (store st') \<Longrightarrow>
       capacity (store st' ! r) = (if r < length (store st) then capacity (store st ! r) else cellCount g)"
proof -
  define lods where "lods = ref_value ref"
  from cull_lod_decomp[OF wf, of G vals g ref cameraPlane frustum] obtain h1 ml
    where "lod_decomp G vals g ref cameraPlane frustum st h1 ml" by blast
  then have D: "reset_inv (cellCount g) (mdbDataList st) (store st) (length lods) (h1, ml)"
    "mdbDataList st' = ml" "length (store st') = length h1"
    "\<And>j. j < length lods \<Longrightarrow> store st' ! (ml ! j) =
        fold (level_cell G vals g lods cameraPlane frustum j) [0..<cellCount g]
          (if ref_version ref \<noteq> lodLevelsVersion st
           then set_uniform (lods ! j) (h1 ! (ml ! j)) else h1 ! (ml ! j))"
    "\<And>r. r \<notin> set ml \<Longrightarrow> store st' ! r = h1 ! r"
    unfolding lod_decomp_def st'_def lods_def by blast+
  from D(1) have I: "length ml = length lods" "length (store st) \<le> length h1"
      "\<forall>r\<in>set ml. r < length h1" "\<forall>md\<in>set h1. same_capacity md"
      "\<forall>j<length lods. if reuses (cellCount g) (mdbDataList st) (store st) j
          then ml ! j = mdbDataList st ! j \<and> h1 ! (ml ! j) = (store st ! (mdbDataList st ! j))\<lparr>count := 0\<rparr>
          else length (store st) \<le> ml ! j \<and> h1 ! (ml ! j) = newMdbData (cellCount g)"
      "\<forall>r<length h1. capacity (h1 ! r) = (if r < length (store st) then capacity (store st ! r) else cellCount g)"
    unfolding reset_inv_def prod.case by blast+
  show "length (store st) \<le> length (store st')" using I(2) D(3) by simp
  show "capacity (store st' ! r) = (if r < length (store st) then capacity (store st ! r) else cellCount g)"
    if r: "r < length (store st')" for r
  proof -
    have "capacity (store st' ! r) = capacity (h1 ! r)"
    proof (cases "r \<in> set ml")
      case False
      then show ?thesis using D(5) by simp
    next
      case True
      then obtain j where j: "j < length lods" "r = ml ! j" using I(1) by (auto simp: in_set_conv_nth)
      let ?o2 = "if ref_version ref \<noteq> lodLevelsVersion st
           then set_uniform (lods ! j) (h1 ! (ml ! j)) else h1 ! (ml ! j)"
      have "ml ! j < length h1" using I(1,3) j(1) by simp
      then have "same_capacity (h1 ! (ml ! j))" using I(4) by simp
      moreover have "count (h1 ! (ml ! j)) = 0 \<and> cellCount g \<le> capacity (h1 ! (ml ! j))"
        using I(5) j(1) by (auto simp: reuses_def split: if_splits)
      ultimately have o2: "same_capacity ?o2" "cellCount g \<le> length (instanceCounts ?o2)" "count ?o2 = 0"
        by (simp_all add: capacity_def)
      have "capacity (store st' ! r) = capacity ?o2"
        unfolding j(2) D(4)[OF j(1)] by (rule fold_level_cell_capacity[OF o2])
      then show ?thesis by (simp add: j(2))
    qed
    then show ?thesis using I(6) r D(3) by simp
  qed
qed

lemma cull_capacities:
  fixes G :: "('p, 'f, 'n::{zero,plus,minus,linorder}) primitives" and vals g cameraPlane frustum st
  assumes wf: "wf_state st" and ready: "cull_ready vals g"
  defines "st' \<equiv> cull G vals cameraPlane frustum st"
  shows "length (store st) \<le> length (store st')"
    "\<And>r. r < length (store st') \<Longrightarrow>
       capacity (store st' ! r) = (if r < length (store st) then capacity (store st ! r) else cellCount g)"
proof -
  let ?st0 = "st\<lparr>cullEnabled := False\<rparr>"
  have wf0: "wf_state ?st0" using wf by simp
  note S = cull_single_capacities[OF wf0, where G = G and vals = vals and g = g
              and cameraPlane = cameraPlane and frustum = frustum]
  note L = cull_lod_capacities[OF wf0, where G = G and vals = vals and g = g
              and ref = "the (lodLevels vals)" and cameraPlane = cameraPlane and frustum = frustum]
  show "length (store st) \<le> length (store st')"
    unfolding st'_def cull_cases[OF ready] using S(1) L(1) by simp
  show "capacity (store st' ! r) = (if r < length (store st) then capacity (store st ! r) else cellCount g)"
    if "r < length (store st')" for r
  proof (cases "lod_levels vals = []")
    case True
    then have eq: "st' = (cull_single G vals g cameraPlane frustum ?st0)\<lparr>cullEnabled := True\<rparr>"
      by (simp add: st'_def cull_cases[OF ready])
    show ?thesis using S(2)[of r] that unfolding eq by simp
  next
    case False
    then have eq: "st' = (cull_lod G vals g (the (lodLevels vals)) cameraPlane frustum ?st0)\<lparr>cullEnabled := True\<rparr>"
      by (simp add: st'_def cull_cases[OF ready])
    show ?thesis using L(2)[of r] that unfolding eq by simp
  qed
qed

lemma cull_single_reuse:
  fixes G :: "('p, 'f, 'n::{zero,plus,minus,linorder}) primitives" and vals g cameraPlane frustum st
  defines "st' \<equiv> cull_single G vals g cameraPlane frustum st"
  shows "if cellCount g \<le> capacity (store st ! mdbData st)
         then mdbData st' = mdbData st \<and> length (store st') = length (store st)
         else mdbData st' = length (store st) \<and> length (store st') = length (store st) + 1"
  by (simp add: st'_def cull_single_def getMdbData_def capacity_def case_prod_beta Let_def)

lemma cull_lod_reuse:
  fixes G :: "('p, 'f, 'n::{zero,plus,minus,linorder}) primitives" and vals g ref cameraPlane frustum st
  assumes wf: "wf_state st"
  defines "st' \<equiv> cull_lod G vals g ref cameraPlane frustum st"
      and "lods \<equiv> ref_value ref"
  shows "\<And>j. j < length lods \<Longrightarrow>
           if reuses (cellCount g) (mdbDataList st) (store st) j
           then mdbDataList st' ! j = mdbDataList st ! j
           else length (store st) \<le> mdbDataList st' ! j"
    "length (store st') = length (store st)
       + length (filter (\<lambda>j. \<not> reuses (cellCount g) (mdbDataList st) (store st) j) [0..<length lods])"
proof -
  from cull_lod_decomp[OF wf, of G vals g ref cameraPlane frustum] obtain h1 ml
    where "lod_decomp G vals g ref cameraPlane frustum st h1 ml" by blast
  then have D: "reset_inv (cellCount g) (mdbDataList st) (store st) (length lods) (h1, ml)"
    "mdbDataList st' = ml" "length (store st') = length h1"
    unfolding lod_decomp_def st'_def lods_def by blast+
  from D(1) have I:
      "\<forall>j<length lods. if reuses (cellCount g) (mdbDataList st) (store st) j
          then ml ! j = mdbDataList st ! j \<and> h1 ! (ml ! j) = (store st ! (mdbDataList st ! j))\<lparr>count := 0\<rparr>
          else length (store st) \<le> ml ! j \<and> h1 ! (ml ! j) = newMdbData (cellCount g)"
      "length h1 = length (store st)
         + length (filter (\<lambda>j. \<not> reuses (cellCount g) (mdbDataList st) (store st) j) [0..<length lods])"
    unfolding reset_inv_def prod.case by blast+
  show "if reuses (cellCount g) (mdbDataList st) (store st) j
           then mdbDataList st' ! j = mdbDataList st ! j
           else length (store st) \<le> mdbDataList st' ! j" if "j < length lods" for j
  proof -
    from I(1) that have "if reuses (cellCount g) (mdbDataList st) (store st) j
          then ml ! j = mdbDataList st ! j \<and> h1 ! (ml ! j) = (store st ! (mdbDataList st ! j))\<lparr>count := 0\<rparr>
          else length (store st) \<le> ml ! j \<and> h1 ! (ml ! j) = newMdbData (cellCount g)"
      by blast
    then show ?thesis unfolding D(2) by (simp split: if_splits)
  qed
  show "length (store st') = length (store st)
       + length (filter (\<lambda>j. \<not> reuses (cellCount g) (mdbDataList st) (store st) j) [0..<length lods])"
    using I(2) D(3) by simp
qed

lemma cull_reuse:
  fixes G :: "('p, 'f, 'n::{zero,plus,minus,linorder}) primitives" and vals g cameraPlane frustum st
  assumes wf: "wf_state st" and ready: "cull_ready vals g"
  defines "st' \<equiv> cull G vals cameraPlane frustum st"
  shows "lod_levels vals = [] \<Longrightarrow>
           mdbDataList st' = [mdbData st']
           \<and> (if cellCount g \<le> capacity (store st ! mdbData st)
              then mdbData st' = mdbData st \<and> length (store st') = length (store st)
              else mdbData st' = length (store st) \<and> length (store st') = length (store st) + 1)"
    "lod_levels vals \<noteq> [] \<Longrightarrow>
           mdbData st' = mdbData st
           \<and> (\<forall>j<length (lod_levels vals).
                 if reuses (cellCount g) (mdbDataList st) (store st) j
                 then mdbDataList st' ! j = mdbDataList st ! j
                 else length (store st) \<le> mdbDataList st' ! j)
           \<and> length (store st') = length (store st)
               + length (filter (\<lambda>j. \<not> reuses (cellCount g) (mdbDataList st) (store st) j)
                           [0..<length (lod_levels vals)])"
proof -
  let ?st0 = "st\<lparr>cullEnabled := False\<rparr>"
  have wf0: "wf_state ?st0" using wf by simp
  show "mdbDataList st' = [mdbData st']
           \<and> (if cellCount g \<le> capacity (store st ! mdbData st)
              then mdbData st' = mdbData st \<and> length (store st') = length (store st)
              else mdbData st' = length (store st) \<and> length (store st') = length (store st) + 1)"
    if "lod_levels vals = []"
  proof -
    have eq: "st' = (cull_single G vals g cameraPlane frustum ?st0)\<lparr>cullEnabled := True\<rparr>"
      using that by (simp add: st'_def cull_cases[OF ready])
    show ?thesis
      unfolding eq
      using cull_single_reuse[of g ?st0 G vals cameraPlane frustum]
        cull_single_batch(1)[OF wf0, where G = G and vals = vals and g = g
              and cameraPlane = cameraPlane and frustum = frustum]
      by simp
  qed
  show "mdbData st' = mdbData st
           \<and> (\<forall>j<length (lod_levels vals).
                 if reuses (cellCount g) (mdbDataList st) (store st) j
                 then mdbDataList st' ! j = mdbDataList st ! j
                 else length (store st) \<le> mdbDataList st' ! j)
           \<and> length (store st') = length (store st)
               + length (filter (\<lambda>j. \<not> reuses (cellCount g) (mdbDataList st) (store st) j)
                           [0..<length (lod_levels vals)])"
    if ne: "lod_levels vals \<noteq> []"
  proof -
    have eq: "st' = (cull_lod G vals g (the (lodLevels vals)) cameraPlane frustum ?st0)\<lparr>cullEnabled := True\<rparr>"
      using that by (simp add: st'_def cull_cases[OF ready])
    have lv: "ref_value (the (lodLevels vals)) = lod_levels vals"
      using ne by (simp add: lod_levels_def split: option.splits)
    note R = cull_lod_reuse[OF wf0, where G = G and vals = vals and g = g
              and ref = "the (lodLevels vals)" and cameraPlane = cameraPlane and frustum = frustum,
              unfolded lv]
    have "if reuses (cellCount g) (mdbDataList st) (store st) j
          then mdbDataList st' ! j = mdbDataList st ! j
          else length (store st) \<le> mdbDataList st' ! j" if "j < length (lod_levels vals)" for j
      using R(1)[OF that] unfolding eq by (simp split: if_splits)
    moreover have "length (store st') = length (store st)
               + length (filter (\<lambda>j. \<not> reuses (cellCount g) (mdbDataList st) (store st) j)
                           [0..<length (lod_levels vals)])"
      using R(2) unfolding eq by simp
    moreover have "mdbData st' = mdbData st"
      unfolding eq by (simp add: cull_lod_fields)
    ultimately show ?thesis by blast
  qed
qed

text \<open>
  Claim C8, amended. In a call that completes its pass, a buffer that exists keeps its
  capacity and every buffer the call allocates has the capacity \<open>cellCount\<close>. The
  call looks up one buffer per batch, the renderable's own buffer \<^verbatim>\<open>mdbData\<close> when
  there are no levels and the buffer in slot \<open>j\<close> of the batch list for level \<open>j\<close>
  when there are, and it reuses that very buffer (same address, no allocation) whenever
  the buffer exists and its capacity is at least \<open>cellCount\<close>; otherwise it allocates
  a new one, which is larger. The store grows by exactly the buffers that were not
  reused. After the call every batch has a count of at most \<open>cellCount\<close> and a
  capacity of at least \<open>cellCount\<close>, whatever the buffers were before. When
  \<open>cellCount\<close> is at least the capacity of every buffer allocated so far (as it is
  in a sequence of calls whose cell count never decreases: the renderable starts with
  one buffer of capacity 0), the same holds after the call, every batch of the call has
  exactly the capacity \<open>cellCount\<close>, and that is at least the capacity the batch in
  the same position had before. Without that condition the capacity of batch 0 can
  shrink, and the buffer that was batch 0 is not the one looked up when a call without
  levels follows a call with levels.
\<close>

theorem buffer_reused_capacity_monotone:
  fixes G :: "('p, 'f, 'n::{zero,plus,minus,linorder}) primitives"
  assumes "wf_state st" and "cull_ready values g"
  shows "wf_state (cull G values cameraPlane frustum st)
       \<and> length (batches (cull G values cameraPlane frustum st))
           = (if lod_levels values = [] then 1 else length (lod_levels values))
       \<and> (\<forall>j<length (batches (cull G values cameraPlane frustum st)).
             count (batches (cull G values cameraPlane frustum st) ! j) \<le> cellCount g
             \<and> cellCount g \<le> capacity (batches (cull G values cameraPlane frustum st) ! j))
       \<and> length (store st) \<le> length (store (cull G values cameraPlane frustum st))
       \<and> (\<forall>r<length (store (cull G values cameraPlane frustum st)).
             capacity (store (cull G values cameraPlane frustum st) ! r)
               = (if r < length (store st) then capacity (store st ! r) else cellCount g))
       \<and> (lod_levels values = [] \<longrightarrow>
             mdbDataList (cull G values cameraPlane frustum st) = [mdbData (cull G values cameraPlane frustum st)]
             \<and> (if cellCount g \<le> capacity (store st ! mdbData st)
                then mdbData (cull G values cameraPlane frustum st) = mdbData st
                     \<and> length (store (cull G values cameraPlane frustum st)) = length (store st)
                else mdbData (cull G values cameraPlane frustum st) = length (store st)
                     \<and> length (store (cull G values cameraPlane frustum st)) = length (store st) + 1))
       \<and> (lod_levels values \<noteq> [] \<longrightarrow>
             mdbData (cull G values cameraPlane frustum st) = mdbData st
             \<and> (\<forall>j<length (lod_levels values).
                   if j < length (mdbDataList st)
                      \<and> cellCount g \<le> capacity (store st ! (mdbDataList st ! j))
                   then mdbDataList (cull G values cameraPlane frustum st) ! j = mdbDataList st ! j
                   else length (store st) \<le> mdbDataList (cull G values cameraPlane frustum st) ! j)
             \<and> length (store (cull G values cameraPlane frustum st)) = length (store st)
                 + length (filter (\<lambda>j. \<not> (j < length (mdbDataList st)
                                             \<and> cellCount g \<le> capacity (store st ! (mdbDataList st ! j))))
                             [0..<length (lod_levels values)]))
       \<and> ((\<forall>md\<in>set (store st). capacity md \<le> cellCount g) \<longrightarrow>
             (\<forall>md\<in>set (store (cull G values cameraPlane frustum st)). capacity md \<le> cellCount g)
             \<and> (\<forall>j<length (batches (cull G values cameraPlane frustum st)).
                   capacity (batches (cull G values cameraPlane frustum st) ! j) = cellCount g
                   \<and> (j < length (batches st) \<longrightarrow>
                        capacity (batches st ! j) \<le> capacity (batches (cull G values cameraPlane frustum st) ! j))))"
proof -
  let ?st' = "cull G values cameraPlane frustum st"
  note C = cull_capacities[OF assms(1,2), where G = G and cameraPlane = cameraPlane
             and frustum = frustum]
  note R = cull_reuse[OF assms(1,2), where G = G and cameraPlane = cameraPlane
             and frustum = frustum, unfolded reuses_def]
  have wf': "wf_state ?st'" using cull_batches(2)[OF assms(1,2)] .
  have len: "length (batches ?st') = (if lod_levels values = [] then 1 else length (lod_levels values))"
    using cull_batches(3)[OF assms(1,2)] .
  have cnt: "\<forall>j<length (batches ?st').
               count (batches ?st' ! j) \<le> cellCount g \<and> cellCount g \<le> capacity (batches ?st' ! j)"
    using cull_batches(5,6)[OF assms(1,2), where G = G and cameraPlane = cameraPlane
            and frustum = frustum]
    by blast
  have caps: "\<forall>r<length (store ?st').
             capacity (store ?st' ! r) = (if r < length (store st) then capacity (store st ! r) else cellCount g)"
    using C(2) by blast
  have mono: "(\<forall>md\<in>set (store ?st'). capacity md \<le> cellCount g)
             \<and> (\<forall>j<length (batches ?st').
                   capacity (batches ?st' ! j) = cellCount g
                   \<and> (j < length (batches st) \<longrightarrow> capacity (batches st ! j) \<le> capacity (batches ?st' ! j)))"
    if bound: "\<forall>md\<in>set (store st). capacity md \<le> cellCount g"
  proof -
    have old: "capacity (store st ! r) \<le> cellCount g" if "r < length (store st)" for r
      using bound that by simp
    have all: "capacity (store ?st' ! r) \<le> cellCount g" if "r < length (store ?st')" for r
      using C(2)[OF that] old[of r] by (simp split: if_splits)
    have 1: "\<forall>md\<in>set (store ?st'). capacity md \<le> cellCount g"
      using all by (auto simp: in_set_conv_nth)
    have 2: "capacity (batches ?st' ! j) = cellCount g
           \<and> (j < length (batches st) \<longrightarrow> capacity (batches st ! j) \<le> capacity (batches ?st' ! j))"
      if j: "j < length (batches ?st')" for j
    proof -
      have r: "mdbDataList ?st' ! j < length (store ?st')"
        using wf' j by (simp add: wf_state_def batches_def)
      have b: "batches ?st' ! j = store ?st' ! (mdbDataList ?st' ! j)"
        using j by (simp add: batches_def)
      have cap: "capacity (batches ?st' ! j) = cellCount g"
        using cull_batches(6)[OF assms(1,2) j] all[OF r] b by simp
      have "capacity (batches st ! j) \<le> cellCount g" if "j < length (batches st)"
      proof -
        have "mdbDataList st ! j < length (store st)"
          using assms(1) that by (simp add: wf_state_def batches_def)
        then show ?thesis using old that by (simp add: batches_def)
      qed
      with cap show ?thesis by simp
    qed
    from 1 2 show ?thesis by blast
  qed
  show ?thesis
    using wf' len cnt C(1) caps R mono by (intro conjI impI) blast+
qed

theorem buffer_reused_capacity_monotone_witness:
  "wf_state (cull ex_G ex_values_lod () (0, 100) createRenderable)
   \<and> cull_ready ex_values_lod ex_grid3 \<and> lod_levels ex_values_lod \<noteq> []
   \<and> cellCount ex_grid3 = 3
   \<and> length (store (cull ex_G ex_values_lod () (0, 100) createRenderable)) = 3
   \<and> capacity (store (cull ex_G ex_values_lod () (0, 100) createRenderable) ! 0) = 0
   \<and> capacity (store (cull ex_G ex_values_lod () (0, 100) createRenderable) ! 1) = 3
   \<and> capacity (store (cull ex_G ex_values_lod () (0, 100) createRenderable) ! 2) = 3
   \<and> mdbDataList (cull ex_G ex_values_lod () (0, 100) createRenderable) = [1, 2]
   \<and> mdbDataList (cull ex_G ex_values_lod () (0, 100)
                    (cull ex_G ex_values_lod () (0, 100) createRenderable)) ! 1 = 2
   \<and> length (store (cull ex_G ex_values_lod () (0, 100)
                      (cull ex_G ex_values_lod () (0, 100) createRenderable))) = 3
   \<and> count (batches (cull ex_G ex_values_lod () (0, 100)
                       (cull ex_G ex_values_lod () (0, 100) createRenderable)) ! 1) \<le> 3
   \<and> capacity (batches (cull ex_G ex_values_lod () (0, 100)
                          (cull ex_G ex_values_lod () (0, 100) createRenderable)) ! 1) = 3
   \<and> wf_state (cull ex_G ex_values1 () (0, 100) createRenderable)
   \<and> cull_ready ex_values3 ex_grid3 \<and> lod_levels ex_values3 = []
   \<and> mdbData (cull ex_G ex_values1 () (0, 100) createRenderable) = 1
   \<and> capacity (store (cull ex_G ex_values1 () (0, 100) createRenderable) ! 1) = 1
   \<and> length (store (cull ex_G ex_values1 () (0, 100) createRenderable)) = 2
   \<and> mdbData (cull ex_G ex_values3 () (0, 100)
                (cull ex_G ex_values1 () (0, 100) createRenderable)) = 2
   \<and> length (store (cull ex_G ex_values3 () (0, 100)
                      (cull ex_G ex_values1 () (0, 100) createRenderable))) = 3
   \<and> capacity (store (cull ex_G ex_values3 () (0, 100)
                        (cull ex_G ex_values1 () (0, 100) createRenderable)) ! 2) = 3
   \<and> capacity (store (cull ex_G ex_values3 () (0, 100)
                        (cull ex_G ex_values1 () (0, 100) createRenderable)) ! 1) = 1"
proof -
  let ?s1 = "cull ex_G ex_values_lod () (0, 100) createRenderable"
  let ?s2 = "cull ex_G ex_values_lod () (0, 100) ?s1"
  let ?t1 = "cull ex_G ex_values1 () (0, 100) createRenderable"
  let ?t2 = "cull ex_G ex_values3 () (0, 100) ?t1"
  have a: "wf_state ?s1" by code_simp
  have b: "cull_ready ex_values_lod ex_grid3" by code_simp
  have c: "lod_levels ex_values_lod \<noteq> []" by code_simp
  have n: "cellCount ex_grid3 = 3" by code_simp
  have l: "length (lod_levels ex_values_lod) = 2" by code_simp
  have s: "length (store ?s1) = 3" by code_simp
  have c0: "capacity (store ?s1 ! 0) = 0" by code_simp
  have c1: "capacity (store ?s1 ! 1) = 3" by code_simp
  have c2: "capacity (store ?s1 ! 2) = 3" by code_simp
  have ml: "mdbDataList ?s1 = [1, 2]" by code_simp
  have bound: "\<forall>md\<in>set (store ?s1). capacity md \<le> cellCount ex_grid3"
    by code_simp
  note T = buffer_reused_capacity_monotone[OF a b, of ex_G "()" "(0, 100)"]
  from T c have lodpart: "\<forall>j<length (lod_levels ex_values_lod).
                   if j < length (mdbDataList ?s1)
                      \<and> cellCount ex_grid3 \<le> capacity (store ?s1 ! (mdbDataList ?s1 ! j))
                   then mdbDataList ?s2 ! j = mdbDataList ?s1 ! j
                   else length (store ?s1) \<le> mdbDataList ?s2 ! j"
    by blast
  then have "if (1::nat) < length (mdbDataList ?s1)
                      \<and> cellCount ex_grid3 \<le> capacity (store ?s1 ! (mdbDataList ?s1 ! 1))
                   then mdbDataList ?s2 ! 1 = mdbDataList ?s1 ! 1
                   else length (store ?s1) \<le> mdbDataList ?s2 ! 1"
    using l by simp
  then have r1: "mdbDataList ?s2 ! 1 = 2" using ml n c2 by simp
  from T have lb: "length (batches ?s2) = (if lod_levels ex_values_lod = [] then 1 else length (lod_levels ex_values_lod))"
    by blast
  then have lb2: "1 < length (batches ?s2)" using c l by simp
  from T have "\<forall>j<length (batches ?s2). count (batches ?s2 ! j) \<le> cellCount ex_grid3
                  \<and> cellCount ex_grid3 \<le> capacity (batches ?s2 ! j)"
    by blast
  with lb2 n have r2: "count (batches ?s2 ! 1) \<le> 3" by auto
  from T bound have "\<forall>j<length (batches ?s2). capacity (batches ?s2 ! j) = cellCount ex_grid3
                   \<and> (j < length (batches ?s1) \<longrightarrow>
                        capacity (batches ?s1 ! j) \<le> capacity (batches ?s2 ! j))"
    by blast
  with lb2 n have r3: "capacity (batches ?s2 ! 1) = 3" by auto
  from T bound have "\<forall>md\<in>set (store ?s2). capacity md \<le> cellCount ex_grid3" by blast
  have r4: "length (store ?s2) = 3" by code_simp
  have a': "wf_state ?t1" by code_simp
  have b': "cull_ready ex_values3 ex_grid3" by code_simp
  have c': "lod_levels ex_values3 = []" by code_simp
  have m': "mdbData ?t1 = 1" by code_simp
  have k': "capacity (store ?t1 ! 1) = 1" by code_simp
  have s': "length (store ?t1) = 2" by code_simp
  note T' = buffer_reused_capacity_monotone[OF a' b', of ex_G "()" "(0, 100)"]
  from T' c' have "if cellCount ex_grid3 \<le> capacity (store ?t1 ! mdbData ?t1)
                then mdbData ?t2 = mdbData ?t1 \<and> length (store ?t2) = length (store ?t1)
                else mdbData ?t2 = length (store ?t1) \<and> length (store ?t2) = length (store ?t1) + 1"
    by blast
  then have q1: "mdbData ?t2 = 2" "length (store ?t2) = 3" using m' k' s' n by simp_all
  from T' have "\<forall>r<length (store ?t2).
             capacity (store ?t2 ! r)
               = (if r < length (store ?t1) then capacity (store ?t1 ! r) else cellCount ex_grid3)"
    by blast
  then have q2: "capacity (store ?t2 ! 2) = 3" "capacity (store ?t2 ! 1) = 1"
    using q1(2) s' n k' by simp_all
  from a b c n s c0 c1 c2 ml r1 r4 r2 r3 a' b' c' m' k' s' q1 q2 show ?thesis by blast
qed

theorem capacity_shrinks_when_cells_shrink:
  "capacity (batches (cull ex_G ex_values_lod () (0, 100) createRenderable) ! 0) = 3
   \<and> capacity (batches (cull ex_G ex_values1 () (0, 100)
                 (cull ex_G ex_values_lod () (0, 100) createRenderable)) ! 0) = 1
   \<and> cellCount ex_grid1 = 1 \<and> cellCount ex_grid3 = 3
   \<and> mdbDataList (cull ex_G ex_values_lod () (0, 100) createRenderable) ! 0 = 1
   \<and> mdbData (cull ex_G ex_values_lod () (0, 100) createRenderable) = 0
   \<and> mdbDataList (cull ex_G ex_values3 () (0, 100)
                    (cull ex_G ex_values_lod () (0, 100) createRenderable)) ! 0 = 3"
  by code_simp

text \<open>
  Claim C10. After a call of \<open>cull\<close> that passes the preconditions with the LOD table
  absent or empty, from any state the renderable can be in, the batch list handed to
  the render item holds exactly one batch and that batch has no uniforms: the uniforms
  that a call with levels put on a buffer do not survive into a call without levels.
\<close>

theorem no_levels_single_batch_without_uniforms:
  fixes G :: "('p, 'f, 'n::{zero,plus,minus,linorder}) primitives"
  assumes "wf_state st" and "cull_ready values g" and "lod_levels values = []"
  shows "length (batches (cull G values cameraPlane frustum st)) = 1
       \<and> uniforms (batches (cull G values cameraPlane frustum st) ! 0) = []
       \<and> render (cull G values cameraPlane frustum st)
           = Some (batches (cull G values cameraPlane frustum st))"
proof -
  let ?s = "cull_single G values g cameraPlane frustum (st\<lparr>cullEnabled := False\<rparr>)"
  have wf0: "wf_state (st\<lparr>cullEnabled := False\<rparr>)" using assms(1) by simp
  have eq: "cull G values cameraPlane frustum st = ?s\<lparr>cullEnabled := True\<rparr>"
    using cull_cases[OF assms(2)] assms(3) by simp
  show ?thesis
    unfolding eq
    using cull_single_batch(1,6)[OF wf0, where G = G and vals = "values" and g = g
              and cameraPlane = cameraPlane and frustum = frustum]
    by (simp add: batches_def render_def)
qed

theorem no_levels_single_batch_without_uniforms_witness:
  "wf_state (cull ex_G ex_values_lod () (0, 100) (cull ex_G ex_values3 () (0, 100) createRenderable))
   \<and> cull_ready ex_values3 ex_grid3 \<and> lod_levels ex_values3 = []
   \<and> mdbDataList (cull ex_G ex_values_lod () (0, 100)
                    (cull ex_G ex_values3 () (0, 100) createRenderable)) ! 0
       = mdbData (cull ex_G ex_values_lod () (0, 100)
                    (cull ex_G ex_values3 () (0, 100) createRenderable))
   \<and> uniforms (batches (cull ex_G ex_values_lod () (0, 100)
                    (cull ex_G ex_values3 () (0, 100) createRenderable)) ! 0)
       = [(''uLod'', 0, 50, 0, 1)]
   \<and> length (batches (cull ex_G ex_values3 () (0, 100)
                 (cull ex_G ex_values_lod () (0, 100)
                    (cull ex_G ex_values3 () (0, 100) createRenderable)))) = 1
   \<and> uniforms (batches (cull ex_G ex_values3 () (0, 100)
                 (cull ex_G ex_values_lod () (0, 100)
                    (cull ex_G ex_values3 () (0, 100) createRenderable))) ! 0) = []"
proof -
  have a: "wf_state (cull ex_G ex_values_lod () (0, 100)
                       (cull ex_G ex_values3 () (0, 100) createRenderable))"
    by code_simp
  have b: "cull_ready ex_values3 ex_grid3" by code_simp
  have c: "lod_levels ex_values3 = []" by code_simp
  have d: "mdbDataList (cull ex_G ex_values_lod () (0, 100)
                    (cull ex_G ex_values3 () (0, 100) createRenderable)) ! 0
       = mdbData (cull ex_G ex_values_lod () (0, 100)
                    (cull ex_G ex_values3 () (0, 100) createRenderable))"
    by code_simp
  have e: "uniforms (batches (cull ex_G ex_values_lod () (0, 100)
                    (cull ex_G ex_values3 () (0, 100) createRenderable)) ! 0)
       = [(''uLod'', 0, 50, 0, 1)]"
    by code_simp
  from no_levels_single_batch_without_uniforms[OF a b c, of ex_G "()" "(0, 100)"] a b c d e
  show ?thesis by blast
qed

section \<open>Culling twice\<close>

lemma buffer_determined:
  assumes e: "entries k a = entries k b"
      and a': "counts a' = counts a" "instanceCounts a' = instanceCounts a"
              "baseInstances a' = baseInstances a" "firsts a' = firsts a" "offsets a' = offsets a"
              "baseVertices a' = baseVertices a"
      and r: "same_rest k a' b"
  shows "counts b = counts a" "instanceCounts b = instanceCounts a" "baseInstances b = baseInstances a"
    "firsts b = firsts a" "offsets b = offsets a" "baseVertices b = baseVertices a"
    "uniforms b = uniforms a'"
proof -
  have pre: "baseInstances a ! i = baseInstances b ! i \<and> instanceCounts a ! i = instanceCounts b ! i
             \<and> counts a ! i = counts b ! i" if "i < k" for i
  proof -
    have "entries k a ! i = entries k b ! i" using e by simp
    then show ?thesis using that by (simp add: nth_entries)
  qed
  have post: "counts b ! i = counts a ! i \<and> instanceCounts b ! i = instanceCounts a ! i
               \<and> baseInstances b ! i = baseInstances a ! i" if "k \<le> i" for i
    using r that a' by (simp add: same_rest_def)
  have len: "length (counts b) = length (counts a)" "length (instanceCounts b) = length (instanceCounts a)"
      "length (baseInstances b) = length (baseInstances a)"
    using r a' by (simp_all add: same_rest_def)
  have el: "counts b ! i = counts a ! i \<and> instanceCounts b ! i = instanceCounts a ! i
               \<and> baseInstances b ! i = baseInstances a ! i" for i
    using pre[of i] post[of i] by (cases "i < k") simp_all
  show "counts b = counts a" using len(1) el by (intro nth_equalityI) simp_all
  show "instanceCounts b = instanceCounts a" using len(2) el by (intro nth_equalityI) simp_all
  show "baseInstances b = baseInstances a" using len(3) el by (intro nth_equalityI) simp_all
  show "firsts b = firsts a" "offsets b = offsets a" "baseVertices b = baseVertices a"
    "uniforms b = uniforms a'"
    using r a' by (simp_all add: same_rest_def)
qed

lemma cull_single_twice:
  fixes G :: "('p, 'f, 'n::{zero,plus,minus,linorder}) primitives" and vals g cameraPlane frustum st
  assumes wf: "wf_state st"
  shows "cull_single G vals g cameraPlane frustum (cull_single G vals g cameraPlane frustum st)
         = cull_single G vals g cameraPlane frustum st"
proof -
  obtain r h where gm: "getMdbData (cellCount g) (Some (mdbData st)) (store st) = (r, h)"
    by (cases "getMdbData (cellCount g) (Some (mdbData st)) (store st)")
  have rh: "r < length h" "cellCount g \<le> capacity (h ! r)" "\<forall>md\<in>set h. same_capacity md"
    using gm wf
    by (auto simp: getMdbData_def wf_state_def capacity_def nth_append newMdbData_def
          same_capacity_def split: if_splits)
  have sc: "same_capacity (h ! r)" using rh(1,3) by simp
  obtain md k where f: "fold (cull_cell G vals g cameraPlane frustum) [0..<cellCount g] (h ! r, 0) = (md, k)"
    by (cases "fold (cull_cell G vals g cameraPlane frustum) [0..<cellCount g] (h ! r, 0)")
  let ?b1 = "md\<lparr>count := k, uniforms := []\<rparr>"
  let ?s1 = "st\<lparr>store := h[r := ?b1], mdbData := r, mdbDataList := [r]\<rparr>"
  have s1: "cull_single G vals g cameraPlane frustum st = ?s1"
    by (simp add: cull_single_def gm f)
  from fold_cull_cell[OF sc, where n = "cellCount g" and G = G and g = g
         and cameraPlane = cameraPlane and frustum = frustum and vals = vals] rh(2) f
  have F: "entries k md = run_entries False (drawCount vals)
                             (sel_single G vals g cameraPlane frustum) (cellOffsets g) (cellCount g)"
      "same_capacity md" "same_rest k (h ! r) md"
    by (simp_all add: capacity_def)
  have cap1: "cellCount g \<le> length (instanceCounts ?b1)"
    using F(3) rh(2) by (simp add: same_rest_def capacity_def)
  have sc1: "same_capacity ?b1" using F(2) by (simp add: same_capacity_def)
  have gm2: "getMdbData (cellCount g) (Some (mdbData ?s1)) (store ?s1) = (r, h[r := ?b1])"
    using rh(1) cap1 by (simp add: getMdbData_def)
  have at: "h[r := ?b1] ! r = ?b1" using rh(1) by simp
  obtain md2 k2 where f2: "fold (cull_cell G vals g cameraPlane frustum) [0..<cellCount g] (?b1, 0) = (md2, k2)"
    by (cases "fold (cull_cell G vals g cameraPlane frustum) [0..<cellCount g] (?b1, 0)")
  from fold_cull_cell[OF sc1, where n = "cellCount g" and G = G and g = g
         and cameraPlane = cameraPlane and frustum = frustum and vals = vals] cap1 f2
  have F2: "entries k2 md2 = run_entries False (drawCount vals)
                             (sel_single G vals g cameraPlane frustum) (cellOffsets g) (cellCount g)"
      "same_rest k2 ?b1 md2"
    by simp_all
  have "length (entries k2 md2) = length (entries k md)" using F(1) F2(1) by simp
  then have k2: "k2 = k" by simp
  have e: "entries k md = entries k md2" using F(1) F2(1) k2 by simp
  note B = buffer_determined[OF e _ _ _ _ _ _ F2(2)[unfolded k2]]
  have b2: "md2\<lparr>count := k, uniforms := []\<rparr> = ?b1"
    using B by simp
  have "cull_single G vals g cameraPlane frustum ?s1
        = ?s1\<lparr>store := (h[r := ?b1])[r := md2\<lparr>count := k2, uniforms := []\<rparr>],
               mdbData := r, mdbDataList := [r]\<rparr>"
    unfolding cull_single_def gm2 by (simp add: at f2)
  also have "\<dots> = ?s1" using b2 k2 by simp
  finally show ?thesis unfolding s1 .
qed

lemma cull_lod_twice:
  fixes G :: "('p, 'f, 'n::{zero,plus,minus,linorder}) primitives" and vals g ref cameraPlane frustum st
  assumes wf: "wf_state st"
  shows "cull_lod G vals g ref cameraPlane frustum (cull_lod G vals g ref cameraPlane frustum st)
         = cull_lod G vals g ref cameraPlane frustum st"
proof -
  define s1 where "s1 = cull_lod G vals g ref cameraPlane frustum st"
  define s2 where "s2 = cull_lod G vals g ref cameraPlane frustum s1"
  define lods where "lods = ref_value ref"
  note B1 = cull_lod_batches[OF wf, where G = G and vals = vals and g = g and ref = ref
               and cameraPlane = cameraPlane and frustum = frustum, folded s1_def lods_def]
  have wf1: "wf_state s1" using B1(2) .
  have v1: "lodLevelsVersion s1 = ref_version ref" by (simp add: s1_def cull_lod_fields)
  note B2 = cull_lod_batches[OF wf1, where G = G and vals = vals and g = g and ref = ref
               and cameraPlane = cameraPlane and frustum = frustum, folded s2_def lods_def]
  from cull_lod_decomp[OF wf1, of G vals g ref cameraPlane frustum] obtain h1 ml
    where "lod_decomp G vals g ref cameraPlane frustum s1 h1 ml" by blast
  then have D: "reset_inv (cellCount g) (mdbDataList s1) (store s1) (length lods) (h1, ml)"
    "mdbDataList s2 = ml" "length (store s2) = length h1"
    "\<And>j. j < length lods \<Longrightarrow> store s2 ! (ml ! j) =
        fold (level_cell G vals g lods cameraPlane frustum j) [0..<cellCount g] (h1 ! (ml ! j))"
    "\<And>r. r \<notin> set ml \<Longrightarrow> store s2 ! r = h1 ! r"
    unfolding lod_decomp_def s2_def lods_def v1 by simp_all
  have reuse: "reuses (cellCount g) (mdbDataList s1) (store s1) j" if "j < length lods" for j
    using B1(1) B1(5)[OF that] that by (simp add: reuses_def)
  from D(1) have I: "length ml = length lods"
      "(\<forall>j<length lods. reuses (cellCount g) (mdbDataList s1) (store s1) j) \<longrightarrow> length h1 = length (store s1)"
      "\<forall>r<length (store s1). r \<notin> set ml \<longrightarrow> h1 ! r = store s1 ! r"
      "\<forall>j<length lods. if reuses (cellCount g) (mdbDataList s1) (store s1) j
          then ml ! j = mdbDataList s1 ! j \<and> h1 ! (ml ! j) = (store s1 ! (mdbDataList s1 ! j))\<lparr>count := 0\<rparr>
          else length (store s1) \<le> ml ! j \<and> h1 ! (ml ! j) = newMdbData (cellCount g)"
    unfolding reset_inv_def prod.case by blast+
  have len: "length h1 = length (store s1)" using I(2) reuse by blast
  have slot: "ml ! j = mdbDataList s1 ! j" "h1 ! (ml ! j) = (store s1 ! (ml ! j))\<lparr>count := 0\<rparr>"
    if "j < length lods" for j
  proof -
    from I(4) that have "if reuses (cellCount g) (mdbDataList s1) (store s1) j
          then ml ! j = mdbDataList s1 ! j \<and> h1 ! (ml ! j) = (store s1 ! (mdbDataList s1 ! j))\<lparr>count := 0\<rparr>
          else length (store s1) \<le> ml ! j \<and> h1 ! (ml ! j) = newMdbData (cellCount g)"
      by blast
    with reuse[OF that]
    have *: "ml ! j = mdbDataList s1 ! j \<and> h1 ! (ml ! j) = (store s1 ! (mdbDataList s1 ! j))\<lparr>count := 0\<rparr>"
      by metis
    show "ml ! j = mdbDataList s1 ! j" using * by blast
    show "h1 ! (ml ! j) = (store s1 ! (ml ! j))\<lparr>count := 0\<rparr>" using * by metis
  qed
  have ml: "ml = mdbDataList s1"
    using I(1) B1(1) slot(1) by (intro nth_equalityI) simp_all
  have same: "store s2 ! (ml ! j) = store s1 ! (ml ! j)" if j: "j < length lods" for j
  proof -
    let ?a = "store s1 ! (ml ! j)"
    let ?b = "fold (level_cell G vals g lods cameraPlane frustum j) [0..<cellCount g] (?a\<lparr>count := 0\<rparr>)"
    have r: "ml ! j < length (store s1)"
      using wf1 j B1(1) ml by (simp add: wf_state_def)
    have sc: "same_capacity (?a\<lparr>count := 0\<rparr>)" using wf1 r by (simp add: wf_state_def)
    have cap: "cellCount g \<le> length (instanceCounts (?a\<lparr>count := 0\<rparr>))"
      using B1(5)[OF j] ml by (simp add: capacity_def)
    from fold_level_cell[OF sc cap, where G = G and vals = vals and g = g and lods = lods
           and cameraPlane = cameraPlane and frustum = frustum and j = j]
    have L: "entries (count ?b) ?b = run_entries True (lvCount (lods ! j))
               (sel_level G vals g lods cameraPlane frustum j) (cellOffsets g) (cellCount g)"
        "same_rest (count ?b) (?a\<lparr>count := 0\<rparr>) ?b"
      by simp_all
    have e1: "entries (count ?a) ?a = run_entries True (lvCount (lods ! j))
               (sel_level G vals g lods cameraPlane frustum j) (cellOffsets g) (cellCount g)"
      using B1(3)[OF j] ml by simp
    have "length (entries (count ?b) ?b) = length (entries (count ?a) ?a)" using L(1) e1 by simp
    then have c: "count ?b = count ?a" by simp
    have e: "entries (count ?a) ?a = entries (count ?a) ?b" using L(1) e1 c by simp
    note E = buffer_determined[OF e _ _ _ _ _ _ L(2)[unfolded c]]
    have "?b = ?a"
      using E c by (intro MultiDrawBaseData.equality) simp_all
    then show ?thesis using D(4)[OF j] slot(2)[OF j] by simp
  qed
  have st: "store s2 = store s1"
  proof (intro nth_equalityI)
    show "length (store s2) = length (store s1)" using D(3) len by simp
    fix r assume r: "r < length (store s2)"
    show "store s2 ! r = store s1 ! r"
    proof (cases "r \<in> set ml")
      case True
      then obtain j where "j < length lods" "r = ml ! j" using I(1) by (auto simp: in_set_conv_nth)
      then show ?thesis using same by simp
    next
      case False
      then show ?thesis using D(5) I(3) r D(3) len by simp
    qed
  qed
  have "s2 = s1"
    using st D(2) ml v1
    by (intro Renderable.equality) (simp_all add: s2_def cull_lod_fields)
  then show ?thesis by (simp add: s2_def s1_def)
qed

text \<open>
  Claim C7. Calling \<open>cull\<close> a second time with the same values (and so the same LOD
  table and version), camera plane and frustum gives the state the first call gave:
  the same batch list, the same count and entries in every batch, and the same number
  of uniform updates, so the second call rebuilds no uniforms.
\<close>

theorem cull_twice_same:
  fixes G :: "('p, 'f, 'n::{zero,plus,minus,linorder}) primitives"
  assumes "wf_state st"
  shows "cull G values cameraPlane frustum (cull G values cameraPlane frustum st)
           = cull G values cameraPlane frustum st
       \<and> batches (cull G values cameraPlane frustum (cull G values cameraPlane frustum st))
           = batches (cull G values cameraPlane frustum st)
       \<and> uniformUpdates (cull G values cameraPlane frustum (cull G values cameraPlane frustum st))
           = uniformUpdates (cull G values cameraPlane frustum st)"
proof -
  let ?st0 = "st\<lparr>cullEnabled := False\<rparr>"
  have wf0: "wf_state ?st0" using assms by simp
  have "cull G values cameraPlane frustum (cull G values cameraPlane frustum st)
           = cull G values cameraPlane frustum st"
  proof (cases "\<exists>g. cull_ready values g")
    case False
    then have "cull G values cameraPlane frustum s = s\<lparr>cullEnabled := False\<rparr>" for s
      by (auto simp: cull_def cull_ready_def Let_def split: option.splits)
    then show ?thesis by simp
  next
    case True
    then obtain g where ready: "cull_ready values g" by blast
    show ?thesis
    proof (cases "lod_levels values = []")
      case True
      let ?s = "cull_single G values g cameraPlane frustum ?st0"
      have c: "cull G values cameraPlane frustum s
               = (cull_single G values g cameraPlane frustum (s\<lparr>cullEnabled := False\<rparr>))\<lparr>cullEnabled := True\<rparr>" for s
        using cull_cases[OF ready] True by simp
      have off: "?s\<lparr>cullEnabled := False\<rparr> = ?s"
        using cull_single_batch(7)[OF wf0, where G = G and vals = "values" and g = g
          and cameraPlane = cameraPlane and frustum = frustum] by simp
      show ?thesis
        unfolding c[of st] unfolding c[of "?s\<lparr>cullEnabled := True\<rparr>"]
        using cull_single_twice[OF wf0, of G "values" g cameraPlane frustum] off by simp
    next
      case False
      let ?ref = "the (lodLevels values)"
      let ?s = "cull_lod G values g ?ref cameraPlane frustum ?st0"
      have c: "cull G values cameraPlane frustum s
               = (cull_lod G values g ?ref cameraPlane frustum (s\<lparr>cullEnabled := False\<rparr>))\<lparr>cullEnabled := True\<rparr>" for s
        using cull_cases[OF ready] False by simp
      have off: "?s\<lparr>cullEnabled := False\<rparr> = ?s"
        by (simp add: cull_lod_def Let_def case_prod_beta)
      show ?thesis
        unfolding c[of st] unfolding c[of "?s\<lparr>cullEnabled := True\<rparr>"]
        using cull_lod_twice[OF wf0, of G "values" g ?ref cameraPlane frustum] off by simp
    qed
  qed
  then show ?thesis by simp
qed

theorem cull_twice_same_witness:
  "wf_state (createRenderable :: int Renderable)
   \<and> cull ex_G ex_values_lod () (0, 100) (cull ex_G ex_values_lod () (0, 100) createRenderable)
       = cull ex_G ex_values_lod () (0, 100) createRenderable
   \<and> uniformUpdates (cull ex_G ex_values_lod () (0, 100) createRenderable) = 2
   \<and> uniformUpdates (cull ex_G ex_values_lod () (0, 100)
                       (cull ex_G ex_values_lod () (0, 100) createRenderable)) = 2
   \<and> count (batches (cull ex_G ex_values_lod () (0, 100) createRenderable) ! 1) = 1
   \<and> cull ex_G ex_values3 () (0, 10) (cull ex_G ex_values3 () (0, 10) createRenderable)
       = cull ex_G ex_values3 () (0, 10) createRenderable
   \<and> count (batches (cull ex_G ex_values3 () (0, 10) createRenderable) ! 0) = 2
   \<and> batches (cull ex_G ex_values3 () (0, 10) (cull ex_G ex_values3 () (0, 10) createRenderable))
       = batches (cull ex_G ex_values3 () (0, 10) createRenderable)"
proof -
  have a: "wf_state (createRenderable :: int Renderable)" by code_simp
  have b: "uniformUpdates (cull ex_G ex_values_lod () (0, 100) createRenderable) = 2" by code_simp
  have c: "count (batches (cull ex_G ex_values_lod () (0, 100) createRenderable) ! 1) = 1"
    by code_simp
  have d: "count (batches (cull ex_G ex_values3 () (0, 10) createRenderable) ! 0) = 2"
    by code_simp
  from cull_twice_same[OF a, of ex_G ex_values_lod "()" "(0, 100)"]
       cull_twice_same[OF a, of ex_G ex_values3 "()" "(0, 10)"] a b c d
  show ?thesis by simp
qed

section \<open>Runs of selected cells\<close>







end
